theory Spec2Isabelle
  imports Complex_Main
begin

section \<open>Data model\<close>

text \<open>
  The concept map of \<^verbatim>\<open>types.ts\<close> and the two functions that work on it:
  the merge at the end of \<^verbatim>\<open>generateConceptMapUpdate\<close> (geminiService.ts) and the
  force layout of \<^verbatim>\<open>useForceLayout\<close> (ConceptBuilder.tsx).

  JavaScript numbers are modelled as exact reals: there is no rounding and no overflow. The
  tick is modelled a second time on numbers with NaN and the infinities, to show that on
  finite input the two agree. The optional fields \<^verbatim>\<open>vx?\<close>, \<^verbatim>\<open>vy?\<close> and \<^verbatim>\<open>label?\<close> are options,
  a nullable argument is an option, and \<^verbatim>\<open>Math.random()\<close> is an explicit sequence of draws.
  A string is a list of characters and its length their number. Field names carry a prefix,
  since a record field is a constant.
\<close>

record ConceptNode =
  node_id :: string
  node_label :: string
  node_x :: real
  node_y :: real
  node_vx :: "real option"
  node_vy :: "real option"

record ConceptLink =
  link_source :: string
  link_target :: string
  link_label :: "string option"

record ConceptMap =
  nodes :: "ConceptNode list"
  links :: "ConceptLink list"

text \<open>
  The parsed model response \<^verbatim>\<open>data\<close>: both arrays may be missing (\<^verbatim>\<open>data.newNodes?.forEach\<close>).
  A proposed node is an object with the one property \<^verbatim>\<open>label\<close>, here the label itself;
  a proposed link has the shape of a \<^verbatim>\<open>ConceptLink\<close>.
\<close>

record MapUpdate =
  newNodes :: "string list option"
  newLinks :: "ConceptLink list option"

section \<open>GraphModel: the merge of generateConceptMapUpdate\<close>

text \<open>
  \<^verbatim>\<open>String.prototype.toLowerCase\<close> on the ASCII range: the letters A to Z (codes 65 to 90)
  move by 32, every other character stays.
\<close>

definition lowerChar :: "char \<Rightarrow> char" where
  "lowerChar c =
     (let n = (of_char c :: nat) in if 65 \<le> n \<and> n \<le> 90 then char_of (n + 32) else c)"

definition toLowerCase :: "string \<Rightarrow> string" where
  "toLowerCase s = map lowerChar s"

text \<open>The body of \<^verbatim>\<open>data.newNodes?.forEach\<close>: one proposed label \<open>n\<close>.\<close>

definition addNode :: "ConceptNode list \<Rightarrow> string \<Rightarrow> ConceptNode list" where
  "addNode ns n =
     (case find (\<lambda>en. toLowerCase (node_label en) = toLowerCase n) ns of
        Some en \<Rightarrow> ns
      | None \<Rightarrow> ns @ [\<lparr>node_id = n, node_label = n, node_x = 0, node_y = 0,
                       node_vx = None, node_vy = None\<rparr>])"

text \<open>The body of \<^verbatim>\<open>data.newLinks?.forEach\<close>: one proposed link \<open>l\<close>.\<close>

definition addLink :: "ConceptNode list \<Rightarrow> ConceptLink list \<Rightarrow> ConceptLink \<Rightarrow> ConceptLink list" where
  "addLink ns ls l =
     (case find (\<lambda>n. toLowerCase (node_label n) = toLowerCase (link_source l)) ns of
        None \<Rightarrow> ls
      | Some sourceNode \<Rightarrow>
         (case find (\<lambda>n. toLowerCase (node_label n) = toLowerCase (link_target l)) ns of
            None \<Rightarrow> ls
          | Some targetNode \<Rightarrow>
             (let safeSource = node_label sourceNode; safeTarget = node_label targetNode in
              case find (\<lambda>el. link_source el = safeSource \<and> link_target el = safeTarget) ls of
                Some el \<Rightarrow> ls
              | None \<Rightarrow> ls @ [\<lparr>link_source = safeSource, link_target = safeTarget,
                               link_label = link_label l\<rparr>])))"

definition orEmpty :: "'a list option \<Rightarrow> 'a list" where
  "orEmpty xs = (case xs of None \<Rightarrow> [] | Some ys \<Rightarrow> ys)"

text \<open>
  \<^verbatim>\<open>generateConceptMapUpdate\<close> after the model call: \<open>upd\<close> is the parsed response,
  \<open>currentMap\<close> the map it is merged into.
\<close>

definition generateConceptMapUpdate :: "MapUpdate \<Rightarrow> ConceptMap \<Rightarrow> ConceptMap" where
  "generateConceptMapUpdate upd currentMap =
     (let ns = foldl addNode (nodes currentMap) (orEmpty (newNodes upd));
          ls = foldl (addLink ns) (links currentMap) (orEmpty (newLinks upd))
      in \<lparr>nodes = ns, links = ls\<rparr>)"

text \<open>The component starts from the empty map and replaces it by the result of every merge.\<close>

definition emptyMap :: ConceptMap where
  "emptyMap = \<lparr>nodes = [], links = []\<rparr>"

definition mergeAll :: "MapUpdate list \<Rightarrow> ConceptMap" where
  "mergeAll upds = foldl (\<lambda>m upd. generateConceptMapUpdate upd m) emptyMap upds"

text \<open>Vocabulary of the properties.\<close>

definition hasLabel :: "ConceptNode list \<Rightarrow> string \<Rightarrow> bool" where
  "hasLabel ns s = (\<exists>n \<in> set ns. node_label n = s)"

definition resolves :: "ConceptNode list \<Rightarrow> string \<Rightarrow> bool" where
  "resolves ns s = (\<exists>n \<in> set ns. toLowerCase (node_label n) = toLowerCase s)"

definition noDangling :: "ConceptMap \<Rightarrow> bool" where
  "noDangling m =
     (\<forall>l \<in> set (links m). hasLabel (nodes m) (link_source l) \<and> hasLabel (nodes m) (link_target l))"

definition linkPair :: "ConceptLink \<Rightarrow> string \<times> string" where
  "linkPair l = (link_source l, link_target l)"

definition countLabel :: "ConceptNode list \<Rightarrow> string \<Rightarrow> nat" where
  "countLabel ns s = length (filter (\<lambda>n. toLowerCase (node_label n) = toLowerCase s) ns)"

section \<open>ForceLayoutEngine: useForceLayout\<close>

subsection \<open>Node dimensions\<close>

text \<open>\<^verbatim>\<open>getNodeDimensions\<close> returns \<^verbatim>\<open>{ width, height }\<close>, here the pair (width, height).\<close>

definition getNodeDimensions :: "string \<Rightarrow> real \<times> real" where
  "getNodeDimensions lbl = (max 120 (real (length lbl) * 9 + 30), 44)"

subsection \<open>Seeding new nodes (the first effect)\<close>

text \<open>
  The state of the seeding loop: the array \<^verbatim>\<open>next\<close> and the number of \<^verbatim>\<open>Math.random()\<close>
  calls made so far; \<open>rnd i\<close> is the value of call number \<open>i\<close>. \<open>spawnPosition\<close> is the
  computation of \<^verbatim>\<open>initX\<close> and \<^verbatim>\<open>initY\<close>, \<open>seedNode\<close> the body of \<^verbatim>\<open>nodes.forEach\<close>, and
  \<open>seedNodes\<close> the array the update returns (\<^verbatim>\<open>next\<close>, or \<^verbatim>\<open>prev\<close> with the same content when
  nothing changed). The reset of \<^verbatim>\<open>alphaRef\<close> is not modelled: nothing reads it.
\<close>

fun findIndex :: "('a \<Rightarrow> bool) \<Rightarrow> 'a list \<Rightarrow> nat option" where
  "findIndex P [] = None"
| "findIndex P (a # as) =
     (if P a then Some 0 else (case findIndex P as of None \<Rightarrow> None | Some i \<Rightarrow> Some (Suc i)))"

definition spawnPosition ::
  "ConceptNode list \<Rightarrow> ConceptLink list \<Rightarrow> real \<Rightarrow> real \<Rightarrow> (nat \<Rightarrow> real) \<Rightarrow> nat \<Rightarrow> ConceptNode
     \<Rightarrow> (real \<times> real) \<times> nat" where
  "spawnPosition next ls width height rnd c n =
     (case find (\<lambda>l. link_target l = node_label n \<or> link_source l = node_label n) ls of
        Some connectedLink \<Rightarrow>
          (let peerLabel = (if link_source connectedLink = node_label n
                            then link_target connectedLink else link_source connectedLink)
           in case find (\<lambda>p. node_label p = peerLabel) next of
                Some peer \<Rightarrow>
                  (let angle = rnd c * pi * 2 in
                   ((node_x peer + cos angle * 80, node_y peer + sin angle * 80), c + 1))
              | None \<Rightarrow> ((width / 2, height / 2), c))
      | None \<Rightarrow>
          ((width / 2 + (rnd c - 0.5) * 100, height / 2 + (rnd (c + 1) - 0.5) * 100), c + 2))"

definition seedNode ::
  "ConceptLink list \<Rightarrow> real \<Rightarrow> real \<Rightarrow> (nat \<Rightarrow> real) \<Rightarrow> ConceptNode list \<times> nat \<Rightarrow> ConceptNode
     \<Rightarrow> ConceptNode list \<times> nat" where
  "seedNode ls width height rnd st n =
     (case st of (next, c) \<Rightarrow>
        (case findIndex (\<lambda>en. node_id en = node_id n) next of
           Some i \<Rightarrow>
             (if node_label (next ! i) \<noteq> node_label n
              then (next[i := (next ! i)\<lparr>node_label := node_label n\<rparr>], c)
              else (next, c))
         | None \<Rightarrow>
             (case spawnPosition next ls width height rnd c n of
                ((initX, initY), c') \<Rightarrow>
                  (next @ [n\<lparr>node_x := initX, node_y := initY,
                             node_vx := Some 0, node_vy := Some 0\<rparr>], c'))))"

definition seedNodes ::
  "ConceptNode list \<Rightarrow> ConceptLink list \<Rightarrow> real \<Rightarrow> real \<Rightarrow> (nat \<Rightarrow> real) \<Rightarrow> ConceptNode list
     \<Rightarrow> ConceptNode list" where
  "seedNodes ns ls width height rnd prev = fst (foldl (seedNode ls width height rnd) (prev, 0) ns)"

subsection \<open>One tick: simulate\<close>

text \<open>\<^verbatim>\<open>(v || 0)\<close> on an optional number.\<close>

definition orZero :: "real option \<Rightarrow> real" where
  "orZero v = (case v of None \<Rightarrow> 0 | Some r \<Rightarrow> r)"

definition kIdeal :: real where
  "kIdeal = 250"

definition padding :: real where
  "padding = 30"

definition boundaryMargin :: real where
  "boundaryMargin = 60"

definition maxV :: real where
  "maxV = 8"

text \<open>Phase 1, the body of the inner loop for the pair \<open>u = newNodes[i]\<close>, \<open>v = newNodes[j]\<close>.\<close>

definition repulseDistSq :: "real \<Rightarrow> real \<Rightarrow> real" where
  "repulseDistSq dx dy = (let distSq = dx * dx + dy * dy in if distSq = 0 then 1 else distSq)"

definition repulsePair :: "string option \<Rightarrow> ConceptNode \<Rightarrow> ConceptNode \<Rightarrow> ConceptNode \<times> ConceptNode" where
  "repulsePair draggedNodeId u v =
     (let dx = node_x u - node_x v;
          dy = node_y u - node_y v;
          distSq = repulseDistSq dx dy;
          dist = sqrt distSq;
          force = (kIdeal * kIdeal * 8) / distSq;
          fx = (dx / dist) * force;
          fy = (dy / dist) * force;
          u' = (if Some (node_id u) \<noteq> draggedNodeId
                then u\<lparr>node_vx := Some (orZero (node_vx u) + fx * 0.05),
                       node_vy := Some (orZero (node_vy u) + fy * 0.05)\<rparr>
                else u);
          v' = (if Some (node_id v) \<noteq> draggedNodeId
                then v\<lparr>node_vx := Some (orZero (node_vx v) - fx * 0.05),
                       node_vy := Some (orZero (node_vy v) - fy * 0.05)\<rparr>
                else v)
      in (u', v'))"

definition centerNode :: "real \<Rightarrow> real \<Rightarrow> string option \<Rightarrow> ConceptNode \<Rightarrow> ConceptNode" where
  "centerNode cx cy draggedNodeId u =
     (if Some (node_id u) \<noteq> draggedNodeId
      then u\<lparr>node_vx := Some (orZero (node_vx u) + (cx - node_x u) * 0.005),
             node_vy := Some (orZero (node_vy u) + (cy - node_y u) * 0.005)\<rparr>
      else u)"

text \<open>
  A pair step on the array: both objects are read, changed and written back.
  In the nested iteration \<open>i < j < length\<close>, so the two objects are distinct.
\<close>

definition pairStep :: "('a \<Rightarrow> 'a \<Rightarrow> 'a \<times> 'a) \<Rightarrow> nat \<Rightarrow> nat \<Rightarrow> 'a list \<Rightarrow> 'a list" where
  "pairStep f i j ns = (case f (ns ! i) (ns ! j) of (u', v') \<Rightarrow> ns[i := u', j := v'])"

definition repulsion :: "real \<Rightarrow> real \<Rightarrow> string option \<Rightarrow> ConceptNode list \<Rightarrow> ConceptNode list" where
  "repulsion width height draggedNodeId ns =
     fold (\<lambda>i ms.
             (let ms' = fold (pairStep (repulsePair draggedNodeId) i) [Suc i..<length ms] ms
              in ms'[i := centerNode (width / 2) (height / 2) draggedNodeId (ms' ! i)]))
          [0..<length ns] ns"

text \<open>
  Phase 2, the body of \<^verbatim>\<open>links.forEach\<close>. \<^verbatim>\<open>find\<close> gives the first node with the label;
  for a self-loop source and target are the same object, so the target is read after the
  source has been written.
\<close>

definition springDist :: "real \<Rightarrow> real \<Rightarrow> real" where
  "springDist dx dy = (let d = sqrt (dx * dx + dy * dy) in if d = 0 then 1 else d)"

definition attractLink :: "string option \<Rightarrow> ConceptLink \<Rightarrow> ConceptNode list \<Rightarrow> ConceptNode list" where
  "attractLink draggedNodeId link ns =
     (case findIndex (\<lambda>n. node_label n = link_source link) ns of
        None \<Rightarrow> ns
      | Some si \<Rightarrow>
         (case findIndex (\<lambda>n. node_label n = link_target link) ns of
            None \<Rightarrow> ns
          | Some ti \<Rightarrow>
             (let dx = node_x (ns ! ti) - node_x (ns ! si);
                  dy = node_y (ns ! ti) - node_y (ns ! si);
                  dist = springDist dx dy;
                  force = (dist - kIdeal) * 0.03;
                  fx = (dx / dist) * force;
                  fy = (dy / dist) * force;
                  ns1 = (if Some (node_id (ns ! si)) \<noteq> draggedNodeId
                         then ns[si := (ns ! si)\<lparr>node_vx := Some (orZero (node_vx (ns ! si)) + fx),
                                                 node_vy := Some (orZero (node_vy (ns ! si)) + fy)\<rparr>]
                         else ns)
              in if Some (node_id (ns1 ! ti)) \<noteq> draggedNodeId
                 then ns1[ti := (ns1 ! ti)\<lparr>node_vx := Some (orZero (node_vx (ns1 ! ti)) - fx),
                                           node_vy := Some (orZero (node_vy (ns1 ! ti)) - fy)\<rparr>]
                 else ns1)))"

definition attraction :: "string option \<Rightarrow> ConceptLink list \<Rightarrow> ConceptNode list \<Rightarrow> ConceptNode list" where
  "attraction draggedNodeId ls ns = fold (attractLink draggedNodeId) ls ns"

text \<open>Phase 3, the body of the inner loop of one collision pass.\<close>

definition collidePair :: "string option \<Rightarrow> ConceptNode \<Rightarrow> ConceptNode \<Rightarrow> ConceptNode \<times> ConceptNode" where
  "collidePair draggedNodeId u v =
     (let dimU = getNodeDimensions (node_label u);
          dimV = getNodeDimensions (node_label v);
          dx = node_x u - node_x v;
          dy = node_y u - node_y v;
          minW = (fst dimU + fst dimV) / 2 + padding;
          minH = (snd dimU + snd dimV) / 2 + padding
      in if \<bar>dx\<bar> < minW \<and> \<bar>dy\<bar> < minH then
           (let overlapX = minW - \<bar>dx\<bar>;
                overlapY = minH - \<bar>dy\<bar>
            in if overlapX < overlapY then
                 (let sgn = (if dx > 0 then 1 else - 1);
                      push = overlapX / 2;
                      u1 = (if Some (node_id u) \<noteq> draggedNodeId
                            then u\<lparr>node_x := node_x u + sgn * push\<rparr> else u);
                      v1 = (if Some (node_id v) \<noteq> draggedNodeId
                            then v\<lparr>node_x := node_x v - sgn * push\<rparr> else v)
                  in (u1\<lparr>node_vx := Some (orZero (node_vx u1) * 0.1)\<rparr>,
                      v1\<lparr>node_vx := Some (orZero (node_vx v1) * 0.1)\<rparr>))
               else
                 (let sgn = (if dy > 0 then 1 else - 1);
                      push = overlapY / 2;
                      u1 = (if Some (node_id u) \<noteq> draggedNodeId
                            then u\<lparr>node_y := node_y u + sgn * push\<rparr> else u);
                      v1 = (if Some (node_id v) \<noteq> draggedNodeId
                            then v\<lparr>node_y := node_y v - sgn * push\<rparr> else v)
                  in (u1\<lparr>node_vy := Some (orZero (node_vy u1) * 0.1)\<rparr>,
                      v1\<lparr>node_vy := Some (orZero (node_vy v1) * 0.1)\<rparr>)))
         else (u, v))"

definition collisionPass :: "string option \<Rightarrow> ConceptNode list \<Rightarrow> ConceptNode list" where
  "collisionPass draggedNodeId ns =
     fold (\<lambda>i ms. fold (pairStep (collidePair draggedNodeId) i) [Suc i..<length ms] ms)
          [0..<length ns] ns"

definition collision :: "string option \<Rightarrow> ConceptNode list \<Rightarrow> ConceptNode list" where
  "collision draggedNodeId ns =
     collisionPass draggedNodeId (collisionPass draggedNodeId (collisionPass draggedNodeId ns))"

text \<open>Phase 4, the body of the final \<^verbatim>\<open>map\<close>: first the part below the early return.\<close>

definition integrate :: "real \<Rightarrow> real \<Rightarrow> ConceptNode \<Rightarrow> ConceptNode" where
  "integrate width height n =
     (let vx0 = orZero (node_vx n) * 0.65;
          vy0 = orZero (node_vy n) * 0.65;
          vx1 = max (- maxV) (min maxV vx0);
          vy1 = max (- maxV) (min maxV vy0);
          vx2 = (if \<bar>vx1\<bar> < 0.05 then 0 else vx1);
          vy2 = (if \<bar>vy1\<bar> < 0.05 then 0 else vy1);
          x1 = node_x n + vx2;
          y1 = node_y n + vy2;
          x2 = max boundaryMargin (min (width - boundaryMargin) x1);
          y2 = max boundaryMargin (min (height - boundaryMargin) y1)
      in n\<lparr>node_x := x2, node_y := y2, node_vx := Some vx2, node_vy := Some vy2\<rparr>)"

definition finishNode ::
  "real \<Rightarrow> real \<Rightarrow> string option \<Rightarrow> (real \<times> real) option \<Rightarrow> ConceptNode \<Rightarrow> ConceptNode" where
  "finishNode width height draggedNodeId dragPos n =
     (case dragPos of
        Some p \<Rightarrow>
          (if Some (node_id n) = draggedNodeId
           then n\<lparr>node_x := fst p, node_y := snd p, node_vx := Some 0, node_vy := Some 0\<rparr>
           else integrate width height n)
      | None \<Rightarrow> integrate width height n)"

text \<open>The state update of \<^verbatim>\<open>simulate\<close>: one tick from \<open>prevNodes\<close>.\<close>

definition forces ::
  "real \<Rightarrow> real \<Rightarrow> string option \<Rightarrow> ConceptLink list \<Rightarrow> ConceptNode list \<Rightarrow> ConceptNode list" where
  "forces width height draggedNodeId ls prevNodes =
     attraction draggedNodeId ls (repulsion width height draggedNodeId prevNodes)"

definition simulate ::
  "real \<Rightarrow> real \<Rightarrow> string option \<Rightarrow> (real \<times> real) option \<Rightarrow> ConceptLink list \<Rightarrow> ConceptNode list
     \<Rightarrow> ConceptNode list" where
  "simulate width height draggedNodeId dragPos ls prevNodes =
     map (finishNode width height draggedNodeId dragPos)
         (collision draggedNodeId (forces width height draggedNodeId ls prevNodes))"

section \<open>The tick and the edge geometry on JavaScript numbers\<close>

text \<open>
  A JavaScript number is a finite number, an infinity or NaN. The operations follow the
  rules of JavaScript for the infinities and NaN; on finite numbers they are exact (the
  rounding of doubles, overflow, underflow and the sign of zero are not modelled, so a
  nonzero finite number divided by zero is the infinity of its sign).
\<close>

datatype jsnum = Fin real | PInf | NInf | NaN

definition infOf :: "bool \<Rightarrow> jsnum" where
  "infOf positive = (if positive then PInf else NInf)"

fun isNeg :: "jsnum \<Rightarrow> bool" where
  "isNeg (Fin a) = (a < 0)"
| "isNeg NInf = True"
| "isNeg PInf = False"
| "isNeg NaN = False"

fun isFin :: "jsnum \<Rightarrow> bool" where
  "isFin (Fin a) = True"
| "isFin PInf = False"
| "isFin NInf = False"
| "isFin NaN = False"

fun jneg :: "jsnum \<Rightarrow> jsnum" where
  "jneg (Fin a) = Fin (- a)"
| "jneg PInf = NInf"
| "jneg NInf = PInf"
| "jneg NaN = NaN"

fun jadd :: "jsnum \<Rightarrow> jsnum \<Rightarrow> jsnum" where
  "jadd (Fin a) (Fin b) = Fin (a + b)"
| "jadd NaN y = NaN"
| "jadd x NaN = NaN"
| "jadd PInf NInf = NaN"
| "jadd NInf PInf = NaN"
| "jadd PInf y = PInf"
| "jadd x PInf = PInf"
| "jadd NInf y = NInf"
| "jadd x NInf = NInf"

definition jsub :: "jsnum \<Rightarrow> jsnum \<Rightarrow> jsnum" where
  "jsub x y = jadd x (jneg y)"

fun jmul :: "jsnum \<Rightarrow> jsnum \<Rightarrow> jsnum" where
  "jmul (Fin a) (Fin b) = Fin (a * b)"
| "jmul x y =
     (if x = NaN \<or> y = NaN \<or> x = Fin 0 \<or> y = Fin 0 then NaN else infOf (isNeg x = isNeg y))"

fun jdiv :: "jsnum \<Rightarrow> jsnum \<Rightarrow> jsnum" where
  "jdiv (Fin a) (Fin b) =
     (if b \<noteq> 0 then Fin (a / b) else if a = 0 then NaN else infOf (0 < a))"
| "jdiv NaN y = NaN"
| "jdiv x NaN = NaN"
| "jdiv (Fin a) y = Fin 0"
| "jdiv x (Fin b) = infOf (isNeg x = (b < 0))"
| "jdiv x y = NaN"

fun jsqrt :: "jsnum \<Rightarrow> jsnum" where
  "jsqrt (Fin a) = (if 0 \<le> a then Fin (sqrt a) else NaN)"
| "jsqrt PInf = PInf"
| "jsqrt NInf = NaN"
| "jsqrt NaN = NaN"

fun jabs :: "jsnum \<Rightarrow> jsnum" where
  "jabs (Fin a) = Fin \<bar>a\<bar>"
| "jabs PInf = PInf"
| "jabs NInf = PInf"
| "jabs NaN = NaN"

fun jless :: "jsnum \<Rightarrow> jsnum \<Rightarrow> bool" where
  "jless (Fin a) (Fin b) = (a < b)"
| "jless NaN y = False"
| "jless x NaN = False"
| "jless x NInf = False"
| "jless PInf y = False"
| "jless NInf y = True"
| "jless x PInf = True"

text \<open>\<^verbatim>\<open>Math.max\<close> and \<^verbatim>\<open>Math.min\<close> of two numbers: NaN if one of them is NaN.\<close>

definition jmax :: "jsnum \<Rightarrow> jsnum \<Rightarrow> jsnum" where
  "jmax x y = (if x = NaN \<or> y = NaN then NaN else if jless x y then y else x)"

definition jmin :: "jsnum \<Rightarrow> jsnum \<Rightarrow> jsnum" where
  "jmin x y = (if x = NaN \<or> y = NaN then NaN else if jless y x then y else x)"

text \<open>
  \<^verbatim>\<open>x || y\<close> on numbers: zero and NaN are falsy. \<open>jorZero\<close> is \<^verbatim>\<open>(v || 0)\<close> on an optional
  number (\<^verbatim>\<open>undefined\<close> is falsy).
\<close>

fun truthy :: "jsnum \<Rightarrow> bool" where
  "truthy (Fin a) = (a \<noteq> 0)"
| "truthy NaN = False"
| "truthy PInf = True"
| "truthy NInf = True"

definition jor :: "jsnum \<Rightarrow> jsnum \<Rightarrow> jsnum" where
  "jor x y = (if truthy x then x else y)"

definition jorZero :: "jsnum option \<Rightarrow> jsnum" where
  "jorZero v = (case v of None \<Rightarrow> Fin 0 | Some x \<Rightarrow> jor x (Fin 0))"

text \<open>A node whose coordinates and velocities are JavaScript numbers.\<close>

record JNode =
  jn_id :: string
  jn_label :: string
  jn_x :: jsnum
  jn_y :: jsnum
  jn_vx :: "jsnum option"
  jn_vy :: "jsnum option"

text \<open>
  \<^verbatim>\<open>getIntersection\<close>, the edge geometry of the rendering: a point is a pair (x, y), and the
  result is \<^verbatim>\<open>target\<close> or \<^verbatim>\<open>{ x: target.x + ix, y: target.y + iy }\<close>. The slope
  \<^verbatim>\<open>m = dy / dx\<close> is computed before the faces are told apart, as in the source.
\<close>

definition getIntersection ::
  "jsnum \<times> jsnum \<Rightarrow> jsnum \<times> jsnum \<Rightarrow> jsnum \<Rightarrow> jsnum \<Rightarrow> jsnum \<times> jsnum" where
  "getIntersection from target targetWidth targetHeight =
     (let dx = jsub (fst target) (fst from);
          dy = jsub (snd target) (snd from);
          w = jadd targetWidth (Fin 4);
          h = jadd targetHeight (Fin 4)
      in if jless (jabs dx) (Fin 1) \<and> jless (jabs dy) (Fin 1) then target
         else
           (let m = jdiv dy dx in
            if jless (jmul (jabs dy) w) (jmul (jabs dx) h) then
              (let ix = (if jless (Fin 0) dx then jdiv (jneg w) (Fin 2) else jdiv w (Fin 2));
                   iy = jmul m ix
               in (jadd (fst target) ix, jadd (snd target) iy))
            else
              (let iy = (if jless (Fin 0) dy then jdiv (jneg h) (Fin 2) else jdiv h (Fin 2));
                   ix = (if dx \<noteq> Fin 0 then jdiv iy m else Fin 0)
               in (jadd (fst target) ix, jadd (snd target) iy))))"

text \<open>
  The tick once more, on JavaScript numbers: each function below is the function of the same
  name without the J, with every arithmetic operation, comparison and \<^verbatim>\<open>||\<close> replaced by
  its JavaScript counterpart.
\<close>

definition repulseDistSqJ :: "jsnum \<Rightarrow> jsnum \<Rightarrow> jsnum" where
  "repulseDistSqJ dx dy =
     (let distSq = jadd (jmul dx dx) (jmul dy dy) in if distSq = Fin 0 then Fin 1 else distSq)"

definition repulsePairJ :: "string option \<Rightarrow> JNode \<Rightarrow> JNode \<Rightarrow> JNode \<times> JNode" where
  "repulsePairJ draggedNodeId u v =
     (let dx = jsub (jn_x u) (jn_x v);
          dy = jsub (jn_y u) (jn_y v);
          distSq = repulseDistSqJ dx dy;
          dist = jsqrt distSq;
          force = jdiv (Fin (kIdeal * kIdeal * 8)) distSq;
          fx = jmul (jdiv dx dist) force;
          fy = jmul (jdiv dy dist) force;
          u' = (if Some (jn_id u) \<noteq> draggedNodeId
                then u\<lparr>jn_vx := Some (jadd (jorZero (jn_vx u)) (jmul fx (Fin 0.05))),
                       jn_vy := Some (jadd (jorZero (jn_vy u)) (jmul fy (Fin 0.05)))\<rparr>
                else u);
          v' = (if Some (jn_id v) \<noteq> draggedNodeId
                then v\<lparr>jn_vx := Some (jsub (jorZero (jn_vx v)) (jmul fx (Fin 0.05))),
                       jn_vy := Some (jsub (jorZero (jn_vy v)) (jmul fy (Fin 0.05)))\<rparr>
                else v)
      in (u', v'))"

definition centerNodeJ :: "jsnum \<Rightarrow> jsnum \<Rightarrow> string option \<Rightarrow> JNode \<Rightarrow> JNode" where
  "centerNodeJ cx cy draggedNodeId u =
     (if Some (jn_id u) \<noteq> draggedNodeId
      then u\<lparr>jn_vx := Some (jadd (jorZero (jn_vx u)) (jmul (jsub cx (jn_x u)) (Fin 0.005))),
             jn_vy := Some (jadd (jorZero (jn_vy u)) (jmul (jsub cy (jn_y u)) (Fin 0.005)))\<rparr>
      else u)"

definition repulsionJ :: "jsnum \<Rightarrow> jsnum \<Rightarrow> string option \<Rightarrow> JNode list \<Rightarrow> JNode list" where
  "repulsionJ width height draggedNodeId ns =
     fold (\<lambda>i ms.
             (let ms' = fold (pairStep (repulsePairJ draggedNodeId) i) [Suc i..<length ms] ms
              in ms'[i := centerNodeJ (jdiv width (Fin 2)) (jdiv height (Fin 2)) draggedNodeId (ms' ! i)]))
          [0..<length ns] ns"

definition springDistJ :: "jsnum \<Rightarrow> jsnum \<Rightarrow> jsnum" where
  "springDistJ dx dy = jor (jsqrt (jadd (jmul dx dx) (jmul dy dy))) (Fin 1)"

definition attractLinkJ :: "string option \<Rightarrow> ConceptLink \<Rightarrow> JNode list \<Rightarrow> JNode list" where
  "attractLinkJ draggedNodeId link ns =
     (case findIndex (\<lambda>n. jn_label n = link_source link) ns of
        None \<Rightarrow> ns
      | Some si \<Rightarrow>
         (case findIndex (\<lambda>n. jn_label n = link_target link) ns of
            None \<Rightarrow> ns
          | Some ti \<Rightarrow>
             (let dx = jsub (jn_x (ns ! ti)) (jn_x (ns ! si));
                  dy = jsub (jn_y (ns ! ti)) (jn_y (ns ! si));
                  dist = springDistJ dx dy;
                  force = jmul (jsub dist (Fin kIdeal)) (Fin 0.03);
                  fx = jmul (jdiv dx dist) force;
                  fy = jmul (jdiv dy dist) force;
                  ns1 = (if Some (jn_id (ns ! si)) \<noteq> draggedNodeId
                         then ns[si := (ns ! si)\<lparr>jn_vx := Some (jadd (jorZero (jn_vx (ns ! si))) fx),
                                                 jn_vy := Some (jadd (jorZero (jn_vy (ns ! si))) fy)\<rparr>]
                         else ns)
              in if Some (jn_id (ns1 ! ti)) \<noteq> draggedNodeId
                 then ns1[ti := (ns1 ! ti)\<lparr>jn_vx := Some (jsub (jorZero (jn_vx (ns1 ! ti))) fx),
                                           jn_vy := Some (jsub (jorZero (jn_vy (ns1 ! ti))) fy)\<rparr>]
                 else ns1)))"

definition attractionJ :: "string option \<Rightarrow> ConceptLink list \<Rightarrow> JNode list \<Rightarrow> JNode list" where
  "attractionJ draggedNodeId ls ns = fold (attractLinkJ draggedNodeId) ls ns"

definition collidePairJ :: "string option \<Rightarrow> JNode \<Rightarrow> JNode \<Rightarrow> JNode \<times> JNode" where
  "collidePairJ draggedNodeId u v =
     (let dimU = getNodeDimensions (jn_label u);
          dimV = getNodeDimensions (jn_label v);
          dx = jsub (jn_x u) (jn_x v);
          dy = jsub (jn_y u) (jn_y v);
          minW = jadd (jdiv (jadd (Fin (fst dimU)) (Fin (fst dimV))) (Fin 2)) (Fin padding);
          minH = jadd (jdiv (jadd (Fin (snd dimU)) (Fin (snd dimV))) (Fin 2)) (Fin padding)
      in if jless (jabs dx) minW \<and> jless (jabs dy) minH then
           (let overlapX = jsub minW (jabs dx);
                overlapY = jsub minH (jabs dy)
            in if jless overlapX overlapY then
                 (let sgn = (if jless (Fin 0) dx then Fin 1 else Fin (- 1));
                      push = jdiv overlapX (Fin 2);
                      u1 = (if Some (jn_id u) \<noteq> draggedNodeId
                            then u\<lparr>jn_x := jadd (jn_x u) (jmul sgn push)\<rparr> else u);
                      v1 = (if Some (jn_id v) \<noteq> draggedNodeId
                            then v\<lparr>jn_x := jsub (jn_x v) (jmul sgn push)\<rparr> else v)
                  in (u1\<lparr>jn_vx := Some (jmul (jorZero (jn_vx u1)) (Fin 0.1))\<rparr>,
                      v1\<lparr>jn_vx := Some (jmul (jorZero (jn_vx v1)) (Fin 0.1))\<rparr>))
               else
                 (let sgn = (if jless (Fin 0) dy then Fin 1 else Fin (- 1));
                      push = jdiv overlapY (Fin 2);
                      u1 = (if Some (jn_id u) \<noteq> draggedNodeId
                            then u\<lparr>jn_y := jadd (jn_y u) (jmul sgn push)\<rparr> else u);
                      v1 = (if Some (jn_id v) \<noteq> draggedNodeId
                            then v\<lparr>jn_y := jsub (jn_y v) (jmul sgn push)\<rparr> else v)
                  in (u1\<lparr>jn_vy := Some (jmul (jorZero (jn_vy u1)) (Fin 0.1))\<rparr>,
                      v1\<lparr>jn_vy := Some (jmul (jorZero (jn_vy v1)) (Fin 0.1))\<rparr>)))
         else (u, v))"

definition collisionPassJ :: "string option \<Rightarrow> JNode list \<Rightarrow> JNode list" where
  "collisionPassJ draggedNodeId ns =
     fold (\<lambda>i ms. fold (pairStep (collidePairJ draggedNodeId) i) [Suc i..<length ms] ms)
          [0..<length ns] ns"

definition collisionJ :: "string option \<Rightarrow> JNode list \<Rightarrow> JNode list" where
  "collisionJ draggedNodeId ns =
     collisionPassJ draggedNodeId (collisionPassJ draggedNodeId (collisionPassJ draggedNodeId ns))"

definition integrateJ :: "jsnum \<Rightarrow> jsnum \<Rightarrow> JNode \<Rightarrow> JNode" where
  "integrateJ width height n =
     (let vx0 = jmul (jorZero (jn_vx n)) (Fin 0.65);
          vy0 = jmul (jorZero (jn_vy n)) (Fin 0.65);
          vx1 = jmax (Fin (- maxV)) (jmin (Fin maxV) vx0);
          vy1 = jmax (Fin (- maxV)) (jmin (Fin maxV) vy0);
          vx2 = (if jless (jabs vx1) (Fin 0.05) then Fin 0 else vx1);
          vy2 = (if jless (jabs vy1) (Fin 0.05) then Fin 0 else vy1);
          x1 = jadd (jn_x n) vx2;
          y1 = jadd (jn_y n) vy2;
          x2 = jmax (Fin boundaryMargin) (jmin (jsub width (Fin boundaryMargin)) x1);
          y2 = jmax (Fin boundaryMargin) (jmin (jsub height (Fin boundaryMargin)) y1)
      in n\<lparr>jn_x := x2, jn_y := y2, jn_vx := Some vx2, jn_vy := Some vy2\<rparr>)"

definition finishNodeJ ::
  "jsnum \<Rightarrow> jsnum \<Rightarrow> string option \<Rightarrow> (jsnum \<times> jsnum) option \<Rightarrow> JNode \<Rightarrow> JNode" where
  "finishNodeJ width height draggedNodeId dragPos n =
     (case dragPos of
        Some p \<Rightarrow>
          (if Some (jn_id n) = draggedNodeId
           then n\<lparr>jn_x := fst p, jn_y := snd p, jn_vx := Some (Fin 0), jn_vy := Some (Fin 0)\<rparr>
           else integrateJ width height n)
      | None \<Rightarrow> integrateJ width height n)"

definition simulateJ ::
  "jsnum \<Rightarrow> jsnum \<Rightarrow> string option \<Rightarrow> (jsnum \<times> jsnum) option \<Rightarrow> ConceptLink list \<Rightarrow> JNode list
     \<Rightarrow> JNode list" where
  "simulateJ width height draggedNodeId dragPos ls prevNodes =
     map (finishNodeJ width height draggedNodeId dragPos)
         (collisionJ draggedNodeId
            (attractionJ draggedNodeId ls (repulsionJ width height draggedNodeId prevNodes)))"

text \<open>A node with finite coordinates and velocities, as a node of JavaScript numbers.\<close>

definition embedNode :: "ConceptNode \<Rightarrow> JNode" where
  "embedNode n =
     \<lparr>jn_id = node_id n, jn_label = node_label n, jn_x = Fin (node_x n), jn_y = Fin (node_y n),
      jn_vx = map_option Fin (node_vx n), jn_vy = map_option Fin (node_vy n)\<rparr>"

definition embedPoint :: "real \<times> real \<Rightarrow> jsnum \<times> jsnum" where
  "embedPoint p = (Fin (fst p), Fin (snd p))"

text \<open>No coordinate and no velocity of the node is NaN or an infinity.\<close>

definition finiteNode :: "JNode \<Rightarrow> bool" where
  "finiteNode n =
     (isFin (jn_x n) \<and> isFin (jn_y n) \<and>
      (case jn_vx n of None \<Rightarrow> True | Some v \<Rightarrow> isFin v) \<and>
      (case jn_vy n of None \<Rightarrow> True | Some v \<Rightarrow> isFin v))"

section \<open>Vocabulary of the layout properties\<close>

text \<open>
  The separation that collision resolution asks for on each axis (\<^verbatim>\<open>minW\<close> and \<^verbatim>\<open>minH\<close> in the
  source), the test it makes, and the distance of two centres.
\<close>

definition minSepX :: "ConceptNode \<Rightarrow> ConceptNode \<Rightarrow> real" where
  "minSepX u v =
     (fst (getNodeDimensions (node_label u)) + fst (getNodeDimensions (node_label v))) / 2 + padding"

definition minSepY :: "ConceptNode \<Rightarrow> ConceptNode \<Rightarrow> real" where
  "minSepY u v =
     (snd (getNodeDimensions (node_label u)) + snd (getNodeDimensions (node_label v))) / 2 + padding"

definition overlapping :: "ConceptNode \<Rightarrow> ConceptNode \<Rightarrow> bool" where
  "overlapping u v =
     (\<bar>node_x u - node_x v\<bar> < minSepX u v \<and> \<bar>node_y u - node_y v\<bar> < minSepY u v)"

definition centerDist :: "ConceptNode \<Rightarrow> ConceptNode \<Rightarrow> real" where
  "centerDist u v = sqrt ((node_x u - node_x v) * (node_x u - node_x v) +
                          (node_y u - node_y v) * (node_y u - node_y v))"

text \<open>
  The two tests of the seeding code on a link: whether it mentions the label of the node,
  and the label at its other end (\<^verbatim>\<open>peerLabel\<close>).
\<close>

definition mentions :: "ConceptNode \<Rightarrow> ConceptLink \<Rightarrow> bool" where
  "mentions n l = (link_target l = node_label n \<or> link_source l = node_label n)"

definition peerLabelOf :: "ConceptNode \<Rightarrow> ConceptLink \<Rightarrow> string" where
  "peerLabelOf n l = (if link_source l = node_label n then link_target l else link_source l)"

text \<open>
  The velocity that \<open>integrate\<close> computes for one axis: damping, clamp, snap to zero.
\<close>

definition settle :: "real option \<Rightarrow> real" where
  "settle v =
     (let v0 = orZero v * 0.65;
          v1 = max (- maxV) (min maxV v0)
      in if \<bar>v1\<bar> < 0.05 then 0 else v1)"

text \<open>
  Relations between a node before a phase and the node at the same index after it:
  same id and label; unchanged if it is the dragged node; in place if it is the dragged node.
  \<open>othersAgree\<close> relates a node in a tick with dragged id \<open>d\<close> to the node at the same index in
  the tick with no dragged node. \<open>velClosed\<close> and \<open>collClosed\<close> say that a relation survives the
  field updates that the force phases and the collision phase make.
\<close>

definition sameIdentity :: "ConceptNode \<Rightarrow> ConceptNode \<Rightarrow> bool" where
  "sameIdentity a b = (node_id b = node_id a \<and> node_label b = node_label a)"

definition draggedSame :: "string option \<Rightarrow> ConceptNode \<Rightarrow> ConceptNode \<Rightarrow> bool" where
  "draggedSame d a b = (Some (node_id a) = d \<longrightarrow> b = a)"

definition draggedInPlace :: "string option \<Rightarrow> ConceptNode \<Rightarrow> ConceptNode \<Rightarrow> bool" where
  "draggedInPlace d a b =
     (Some (node_id a) = d \<longrightarrow>
        node_id b = node_id a \<and> node_label b = node_label a \<and>
        node_x b = node_x a \<and> node_y b = node_y a)"

definition othersAgree :: "string option \<Rightarrow> ConceptNode \<Rightarrow> ConceptNode \<Rightarrow> bool" where
  "othersAgree d a b =
     (node_id b = node_id a \<and> node_label b = node_label a \<and>
      node_x b = node_x a \<and> node_y b = node_y a \<and>
      (Some (node_id a) \<noteq> d \<longrightarrow> b = a))"

definition velClosed :: "string option \<Rightarrow> (ConceptNode \<Rightarrow> ConceptNode \<Rightarrow> bool) \<Rightarrow> bool" where
  "velClosed d R =
     (\<forall>a b p q. R a b \<and> Some (node_id b) \<noteq> d \<longrightarrow> R a (b\<lparr>node_vx := p, node_vy := q\<rparr>))"

definition collClosed :: "string option \<Rightarrow> (ConceptNode \<Rightarrow> ConceptNode \<Rightarrow> bool) \<Rightarrow> bool" where
  "collClosed d R =
     (\<forall>a b p r. R a b \<longrightarrow>
        R a (b\<lparr>node_vx := p\<rparr>) \<and> R a (b\<lparr>node_vy := p\<rparr>) \<and>
        (Some (node_id b) \<noteq> d \<longrightarrow> R a (b\<lparr>node_x := r\<rparr>) \<and> R a (b\<lparr>node_y := r\<rparr>)))"

text \<open>
  The force phases in closed form. \<open>samePlace\<close> relates a node before the force phases to
  the node at the same index after them: same id, label and position. \<open>repulseOnX a b\<close> and
  \<open>repulseOnY a b\<close> are the velocity that the repulsion step of the pair \<open>a\<close>, \<open>b\<close> adds to \<open>a\<close>
  (\<^verbatim>\<open>fx * 0.05\<close> and \<^verbatim>\<open>fy * 0.05\<close> for the first node of the pair, their negatives for the
  second). \<open>springOnX ns link q\<close> and \<open>springOnY ns link q\<close> are the velocity that the spring of
  \<open>link\<close> adds to the node at index \<open>q\<close>: \<^verbatim>\<open>fx\<close>, \<^verbatim>\<open>fy\<close> at the source, their negatives at the
  target, nothing when an end of the link is not found.
\<close>

definition samePlace :: "ConceptNode \<Rightarrow> ConceptNode \<Rightarrow> bool" where
  "samePlace a b =
     (node_id b = node_id a \<and> node_label b = node_label a \<and>
      node_x b = node_x a \<and> node_y b = node_y a)"

definition repulseOnX :: "ConceptNode \<Rightarrow> ConceptNode \<Rightarrow> real" where
  "repulseOnX a b =
     (let dx = node_x a - node_x b;
          dy = node_y a - node_y b;
          distSq = repulseDistSq dx dy
      in dx / sqrt distSq * (kIdeal * kIdeal * 8 / distSq) * 0.05)"

definition repulseOnY :: "ConceptNode \<Rightarrow> ConceptNode \<Rightarrow> real" where
  "repulseOnY a b =
     (let dx = node_x a - node_x b;
          dy = node_y a - node_y b;
          distSq = repulseDistSq dx dy
      in dy / sqrt distSq * (kIdeal * kIdeal * 8 / distSq) * 0.05)"

definition springOnX :: "ConceptNode list \<Rightarrow> ConceptLink \<Rightarrow> nat \<Rightarrow> real" where
  "springOnX ns link q =
     (case findIndex (\<lambda>n. node_label n = link_source link) ns of
        None \<Rightarrow> 0
      | Some si \<Rightarrow>
         (case findIndex (\<lambda>n. node_label n = link_target link) ns of
            None \<Rightarrow> 0
          | Some ti \<Rightarrow>
             (let dx = node_x (ns ! ti) - node_x (ns ! si);
                  dy = node_y (ns ! ti) - node_y (ns ! si);
                  dist = springDist dx dy;
                  fx = dx / dist * ((dist - kIdeal) * 0.03)
              in (if q = si then fx else 0) - (if q = ti then fx else 0))))"

definition springOnY :: "ConceptNode list \<Rightarrow> ConceptLink \<Rightarrow> nat \<Rightarrow> real" where
  "springOnY ns link q =
     (case findIndex (\<lambda>n. node_label n = link_source link) ns of
        None \<Rightarrow> 0
      | Some si \<Rightarrow>
         (case findIndex (\<lambda>n. node_label n = link_target link) ns of
            None \<Rightarrow> 0
          | Some ti \<Rightarrow>
             (let dx = node_x (ns ! ti) - node_x (ns ! si);
                  dy = node_y (ns ! ti) - node_y (ns ! si);
                  dist = springDist dx dy;
                  fy = dy / dist * ((dist - kIdeal) * 0.03)
              in (if q = si then fy else 0) - (if q = ti then fy else 0))))"

section \<open>Example inputs\<close>

definition exNode :: "string \<Rightarrow> ConceptNode" where
  "exNode s = \<lparr>node_id = s, node_label = s, node_x = 0, node_y = 0, node_vx = None, node_vy = None\<rparr>"

definition exLink :: "string \<Rightarrow> string \<Rightarrow> string option \<Rightarrow> ConceptLink" where
  "exLink s t lb = \<lparr>link_source = s, link_target = t, link_label = lb\<rparr>"

definition exUpdate :: MapUpdate where
  "exUpdate = \<lparr>newNodes = Some [''Plant'', ''Light''],
               newLinks = Some [exLink ''plant'' ''LIGHT'' (Some ''needs''),
                                exLink ''Plant'' ''Water'' None,
                                exLink ''PLANT'' ''light'' (Some ''uses'')]\<rparr>"

definition exDemocracyUpdate :: MapUpdate where
  "exDemocracyUpdate = \<lparr>newNodes = Some [''Democracy'', ''democracy''], newLinks = None\<rparr>"

definition exDemocracyMap :: ConceptMap where
  "exDemocracyMap = \<lparr>nodes = [exNode ''Democracy''], links = []\<rparr>"

definition exNodes :: "ConceptNode list" where
  "exNodes = [exNode ''Plant'', exNode ''Light'']"

definition exLinks :: "ConceptLink list" where
  "exLinks = [exLink ''Plant'' ''Light'' (Some ''needs'')]"

definition exA :: ConceptNode where
  "exA = \<lparr>node_id = ''Photosynthesis'', node_label = ''Photosynthesis'',
           node_x = 100, node_y = 100, node_vx = Some 0, node_vy = Some 0\<rparr>"

definition exB :: ConceptNode where
  "exB = \<lparr>node_id = ''Carbon dioxide'', node_label = ''Carbon dioxide'',
           node_x = 150, node_y = 100, node_vx = Some 0, node_vy = Some 0\<rparr>"

definition exAB :: "ConceptLink list" where
  "exAB = [exLink ''Photosynthesis'' ''Carbon dioxide'' (Some ''uses'')]"

definition exRnd :: "nat \<Rightarrow> real" where
  "exRnd i = 1 / 4"

definition exAmoved :: ConceptNode where
  "exAmoved = exA\<lparr>node_y := 190\<rparr>"

definition exC :: ConceptNode where
  "exC = \<lparr>node_id = ''Water'', node_label = ''Water'',
           node_x = 0, node_y = 100, node_vx = Some 0, node_vy = Some 0\<rparr>"

section \<open>Merge: helper lemmas\<close>

lemma find_append_keep:
  "find P xs = Some a \<Longrightarrow> find P (xs @ ys) = Some a"
  by (induction xs) (auto split: if_splits)

lemma find_None_set: "find P xs = None \<longleftrightarrow> (\<forall>a \<in> set xs. \<not> P a)"
  by (induction xs) auto

lemma find_Some_set: "find P xs = Some a \<Longrightarrow> a \<in> set xs \<and> P a"
  by (induction xs) (auto split: if_splits)

lemma addNode_cases:
  "addNode ns n = (if resolves ns n then ns
                   else ns @ [\<lparr>node_id = n, node_label = n, node_x = 0, node_y = 0,
                                node_vx = None, node_vy = None\<rparr>])"
proof (cases "find (\<lambda>en. toLowerCase (node_label en) = toLowerCase n) ns")
  case None
  then have "\<not> resolves ns n"
    by (simp add: find_None_set resolves_def)
  with None show ?thesis by (simp add: addNode_def)
next
  case (Some en)
  then have "resolves ns n"
    using find_Some_set [OF Some] by (auto simp: resolves_def)
  with Some show ?thesis by (simp add: addNode_def)
qed

lemma addNode_prefix: "\<exists>zs. addNode ns n = ns @ zs"
  by (simp add: addNode_cases)

lemma foldl_addNode_prefix: "\<exists>zs. foldl addNode ns cs = ns @ zs"
proof (induction cs arbitrary: ns)
  case Nil
  show ?case by simp
next
  case (Cons c cs)
  obtain zs where a: "addNode ns c = ns @ zs"
    using addNode_prefix by blast
  obtain zs' where "foldl addNode (addNode ns c) cs = addNode ns c @ zs'"
    using Cons.IH by blast
  with a show ?case by simp
qed

lemma addLink_prefix: "\<exists>zs. addLink ns ls l = ls @ zs"
  by (simp add: addLink_def Let_def split: option.splits)

lemma foldl_addLink_prefix: "\<exists>zs. foldl (addLink ns) ls cs = ls @ zs"
proof (induction cs arbitrary: ls)
  case Nil
  show ?case by simp
next
  case (Cons c cs)
  obtain zs where a: "addLink ns ls c = ls @ zs"
    using addLink_prefix by blast
  obtain zs' where "foldl (addLink ns) (addLink ns ls c) cs = addLink ns ls c @ zs'"
    using Cons.IH by blast
  with a show ?case by simp
qed

lemma addLink_new_labels:
  assumes "l' \<in> set (addLink ns ls l)" "l' \<notin> set ls"
  shows "hasLabel ns (link_source l') \<and> hasLabel ns (link_target l')"
  using assms
  by (auto simp: addLink_def Let_def hasLabel_def split: option.splits dest: find_Some_set)

lemma foldl_addLink_labels:
  assumes "\<forall>l \<in> set ls. hasLabel ns (link_source l) \<and> hasLabel ns (link_target l)"
  shows "\<forall>l \<in> set (foldl (addLink ns) ls cs). hasLabel ns (link_source l) \<and> hasLabel ns (link_target l)"
  using assms
proof (induction cs arbitrary: ls)
  case Nil
  then show ?case by simp
next
  case (Cons c cs)
  have "\<forall>l \<in> set (addLink ns ls c). hasLabel ns (link_source l) \<and> hasLabel ns (link_target l)"
    using Cons.prems addLink_new_labels by blast
  then show ?case using Cons.IH by simp
qed

lemma hasLabel_append: "hasLabel ns s \<Longrightarrow> hasLabel (ns @ zs) s"
  by (auto simp: hasLabel_def)

lemma noDangling_step:
  assumes "noDangling m"
  shows "noDangling (generateConceptMapUpdate upd m)"
proof -
  define ns where "ns = foldl addNode (nodes m) (orEmpty (newNodes upd))"
  obtain zs where zs: "ns = nodes m @ zs"
    unfolding ns_def using foldl_addNode_prefix by blast
  have "\<forall>l \<in> set (links m). hasLabel ns (link_source l) \<and> hasLabel ns (link_target l)"
    using assms by (simp add: noDangling_def zs hasLabel_append)
  then have "\<forall>l \<in> set (foldl (addLink ns) (links m) (orEmpty (newLinks upd))).
               hasLabel ns (link_source l) \<and> hasLabel ns (link_target l)"
    by (rule foldl_addLink_labels)
  then show ?thesis
    by (simp add: noDangling_def generateConceptMapUpdate_def Let_def ns_def)
qed

lemma foldl_merge_invariant:
  assumes "\<And>m upd. P m \<Longrightarrow> P (generateConceptMapUpdate upd m)" "P m0"
  shows "P (foldl (\<lambda>m upd. generateConceptMapUpdate upd m) m0 upds)"
  using assms(2)
proof (induction upds arbitrary: m0)
  case Nil
  then show ?case by simp
next
  case (Cons u us)
  then show ?case using assms(1) by simp
qed

lemma noDangling_emptyMap: "noDangling emptyMap"
  by (simp add: noDangling_def emptyMap_def)

lemma noDangling_mergeAll: "noDangling (mergeAll upds)"
  unfolding mergeAll_def
  by (rule foldl_merge_invariant) (fact noDangling_step, fact noDangling_emptyMap)

lemma find_pair_case:
  "(case find (\<lambda>el. link_source el = a \<and> link_target el = b) ls of Some el \<Rightarrow> X | None \<Rightarrow> Y) =
   (if (a, b) \<in> linkPair ` set ls then X else Y)"
proof (cases "find (\<lambda>el. link_source el = a \<and> link_target el = b) ls")
  case None
  then have "(a, b) \<notin> linkPair ` set ls"
    by (auto simp: find_None_set linkPair_def)
  with None show ?thesis by simp
next
  case (Some el)
  then have "(a, b) \<in> linkPair ` set ls"
    using find_Some_set [OF Some] by (force simp: linkPair_def image_iff)
  with Some show ?thesis by simp
qed

lemma addLink_cases:
  "addLink ns ls l =
     (case (find (\<lambda>n. toLowerCase (node_label n) = toLowerCase (link_source l)) ns,
            find (\<lambda>n. toLowerCase (node_label n) = toLowerCase (link_target l)) ns) of
        (Some s, Some t) \<Rightarrow>
          (if (node_label s, node_label t) \<in> linkPair ` set ls then ls
           else ls @ [\<lparr>link_source = node_label s, link_target = node_label t,
                        link_label = link_label l\<rparr>])
      | _ \<Rightarrow> ls)"
  by (simp add: addLink_def Let_def find_pair_case split: option.splits)

lemma resolves_find:
  "resolves ns s \<longleftrightarrow> find (\<lambda>n. toLowerCase (node_label n) = toLowerCase s) ns \<noteq> None"
  by (auto simp: resolves_def find_None_set)

lemma addLink_unresolved:
  "\<not> resolves ns (link_source l) \<or> \<not> resolves ns (link_target l) \<Longrightarrow> addLink ns ls l = ls"
  by (auto simp: addLink_cases resolves_find split: option.splits)

lemma addLink_distinct:
  "distinct (map linkPair ls) \<Longrightarrow> distinct (map linkPair (addLink ns ls l))"
  by (auto simp: addLink_cases linkPair_def split: option.splits)

lemma foldl_addLink_distinct:
  "distinct (map linkPair ls) \<Longrightarrow> distinct (map linkPair (foldl (addLink ns) ls cs))"
  by (induction cs arbitrary: ls) (simp_all add: addLink_distinct)

lemma distinctPairs_step:
  "distinct (map linkPair (links m)) \<Longrightarrow> distinct (map linkPair (links (generateConceptMapUpdate upd m)))"
  by (simp add: generateConceptMapUpdate_def Let_def foldl_addLink_distinct)

lemma distinctPairs_mergeAll: "distinct (map linkPair (links (mergeAll upds)))"
  unfolding mergeAll_def
  by (rule foldl_merge_invariant [where P = "\<lambda>m. distinct (map linkPair (links m))"])
     (simp_all add: distinctPairs_step emptyMap_def)

lemma find_cong_lower:
  "toLowerCase a = toLowerCase b \<Longrightarrow>
   find (\<lambda>n. toLowerCase (node_label n) = toLowerCase a) ns =
   find (\<lambda>n. toLowerCase (node_label n) = toLowerCase b) ns"
  by simp

lemma addLink_twice:
  assumes "toLowerCase (link_source l') = toLowerCase (link_source l)"
      and "toLowerCase (link_target l') = toLowerCase (link_target l)"
  shows "addLink ns (addLink ns ls l) l' = addLink ns ls l"
  using assms by (auto simp: addLink_cases linkPair_def image_iff split: option.splits)

lemma addLink_twice_grown:
  assumes "toLowerCase (link_source l') = toLowerCase (link_source l)"
      and "toLowerCase (link_target l') = toLowerCase (link_target l)"
      and "resolves ns (link_source l)" "resolves ns (link_target l)"
  shows "addLink (ns @ zs) (addLink ns ls l) l' = addLink ns ls l"
proof -
  obtain s where s: "find (\<lambda>n. toLowerCase (node_label n) = toLowerCase (link_source l)) ns = Some s"
    using assms(3) by (auto simp: resolves_find)
  obtain t where t: "find (\<lambda>n. toLowerCase (node_label n) = toLowerCase (link_target l)) ns = Some t"
    using assms(4) by (auto simp: resolves_find)
  show ?thesis
    using assms(1,2) s t find_append_keep [OF s, of zs] find_append_keep [OF t, of zs]
    by (auto simp: addLink_cases linkPair_def image_iff)
qed

lemma filter_distinct_one:
  "distinct (map f xs) \<Longrightarrow> a \<in> f ` set xs \<Longrightarrow> length (filter (\<lambda>e. f e = a) xs) = 1"
proof (induction xs)
  case Nil
  then show ?case by simp
next
  case (Cons x xs)
  show ?case
  proof (cases "f x = a")
    case True
    have "f x \<notin> f ` set xs"
      using Cons.prems(1) by simp
    then have "\<forall>e \<in> set xs. f e \<noteq> a"
      using True by blast
    then have "filter (\<lambda>e. f e = a) xs = []"
      by (simp add: filter_empty_conv)
    with True show ?thesis by simp
  next
    case False
    then have "a \<in> f ` set xs"
      using Cons.prems(2) by auto
    moreover have "distinct (map f xs)"
      using Cons.prems(1) by simp
    ultimately have "length (filter (\<lambda>e. f e = a) xs) = 1"
      by (rule Cons.IH [rotated])
    with False show ?thesis by simp
  qed
qed

lemma addLink_count_one:
  assumes "distinct (map linkPair ls)"
      and "find (\<lambda>n. toLowerCase (node_label n) = toLowerCase (link_source l)) ns = Some s"
      and "find (\<lambda>n. toLowerCase (node_label n) = toLowerCase (link_target l)) ns = Some t"
  shows "length (filter (\<lambda>e. linkPair e = (node_label s, node_label t)) (addLink ns ls l)) = 1"
proof -
  have d: "distinct (map linkPair (addLink ns ls l))"
    using assms(1) by (rule addLink_distinct)
  have m: "(node_label s, node_label t) \<in> linkPair ` set (addLink ns ls l)"
    using assms(2,3) by (auto simp: addLink_cases linkPair_def)
  show ?thesis
    using d m by (rule filter_distinct_one)
qed

lemma addNode_resolved: "resolves ns c \<Longrightarrow> addNode ns c = ns"
  by (simp add: addNode_cases)

lemma resolves_addNode_self: "resolves (addNode ns a) a"
proof (cases "resolves ns a")
  case True
  then show ?thesis by (simp add: addNode_cases)
next
  case False
  then show ?thesis by (simp add: addNode_cases resolves_def)
qed

lemma addNode_twice:
  "toLowerCase a = toLowerCase b \<Longrightarrow> addNode (addNode ns a) b = addNode ns a"
proof -
  assume "toLowerCase a = toLowerCase b"
  then have "resolves (addNode ns a) b"
    using resolves_addNode_self [of ns a] by (simp add: resolves_def)
  then show ?thesis by (rule addNode_resolved)
qed

lemma resolves_countLabel: "resolves ns s \<longleftrightarrow> 0 < countLabel ns s"
proof -
  have "countLabel ns s = 0 \<longleftrightarrow> (\<forall>n \<in> set ns. toLowerCase (node_label n) \<noteq> toLowerCase s)"
    unfolding countLabel_def length_0_conv filter_empty_conv by simp
  then show ?thesis
    unfolding resolves_def by auto
qed

lemma countLabel_addNode:
  "countLabel (addNode ns c) s =
     (if \<not> resolves ns c \<and> toLowerCase c = toLowerCase s then countLabel ns s + 1
      else countLabel ns s)"
  by (simp add: addNode_cases countLabel_def)

lemma countLabel_cong: "toLowerCase c = toLowerCase s \<Longrightarrow> countLabel ns c = countLabel ns s"
  by (simp add: countLabel_def)

lemma countLabel_foldl_addNode:
  "countLabel (foldl addNode ns cs) s =
     (if countLabel ns s = 0 \<and> (\<exists>c \<in> set cs. toLowerCase c = toLowerCase s) then 1
      else countLabel ns s)"
proof (induction cs arbitrary: ns)
  case Nil
  show ?case by simp
next
  case (Cons c cs)
  show ?case
  proof (cases "toLowerCase c = toLowerCase s")
    case True
    have r: "resolves ns c \<longleftrightarrow> 0 < countLabel ns s"
      unfolding resolves_countLabel countLabel_cong [OF True] ..
    have step: "countLabel (addNode ns c) s = (if 0 < countLabel ns s then countLabel ns s else 1)"
      using True r by (simp add: countLabel_addNode)
    have ex: "\<exists>c' \<in> set (c # cs). toLowerCase c' = toLowerCase s"
      using True by simp
    show ?thesis
    proof (cases "0 < countLabel ns s")
      case True
      with step ex show ?thesis by (simp add: Cons.IH)
    next
      case False
      with step ex show ?thesis by (simp add: Cons.IH)
    qed
  next
    case False
    then show ?thesis
      by (simp add: Cons.IH countLabel_addNode)
  qed
qed

lemma length_addNode:
  "length (addNode ns c) = length ns + (if resolves ns c then 0 else 1)"
  by (simp add: addNode_cases)

lemma idLabel_addNode:
  "\<forall>n \<in> set ns. node_id n = node_label n \<Longrightarrow> \<forall>n \<in> set (addNode ns c). node_id n = node_label n"
  by (simp add: addNode_cases)

lemma idLabel_foldl:
  "\<forall>n \<in> set ns. node_id n = node_label n \<Longrightarrow> \<forall>n \<in> set (foldl addNode ns cs). node_id n = node_label n"
proof (induction cs arbitrary: ns)
  case Nil
  then show ?case by simp
next
  case (Cons c cs)
  have "\<forall>n \<in> set (addNode ns c). node_id n = node_label n"
    using Cons.prems by (rule idLabel_addNode)
  then show ?case
    using Cons.IH by simp
qed

lemma idLabel_mergeAll: "\<forall>n \<in> set (nodes (mergeAll upds)). node_id n = node_label n"
  unfolding mergeAll_def
  by (rule foldl_merge_invariant [where P = "\<lambda>m. \<forall>n \<in> set (nodes m). node_id n = node_label n"])
     (simp_all add: generateConceptMapUpdate_def Let_def idLabel_foldl emptyMap_def)

lemma ciDistinct_addNode:
  "distinct (map (\<lambda>n. toLowerCase (node_label n)) ns) \<Longrightarrow>
   distinct (map (\<lambda>n. toLowerCase (node_label n)) (addNode ns c))"
  by (auto simp: addNode_cases resolves_def)

lemma ciDistinct_foldl:
  "distinct (map (\<lambda>n. toLowerCase (node_label n)) ns) \<Longrightarrow>
   distinct (map (\<lambda>n. toLowerCase (node_label n)) (foldl addNode ns cs))"
  by (induction cs arbitrary: ns) (simp_all add: ciDistinct_addNode)

lemma ciDistinct_mergeAll: "distinct (map (\<lambda>n. toLowerCase (node_label n)) (nodes (mergeAll upds)))"
  unfolding mergeAll_def
  by (rule foldl_merge_invariant [where P = "\<lambda>m. distinct (map (\<lambda>n. toLowerCase (node_label n)) (nodes m))"])
     (simp_all add: generateConceptMapUpdate_def Let_def ciDistinct_foldl emptyMap_def)

lemma democracy_count:
  "length (nodes (generateConceptMapUpdate \<lparr>newNodes = Some [''Democracy'', ''democracy''], newLinks = nl\<rparr> m)) =
   length (nodes m) + (if resolves (nodes m) ''democracy'' then 0 else 1)"
proof -
  have e: "toLowerCase ''Democracy'' = toLowerCase ''democracy''"
    by code_simp
  have "addNode (addNode (nodes m) ''Democracy'') ''democracy'' = addNode (nodes m) ''Democracy''"
    using e by (rule addNode_twice)
  moreover have "resolves (nodes m) ''Democracy'' = resolves (nodes m) ''democracy''"
    using e by (simp add: resolves_def)
  ultimately show ?thesis
    by (simp add: generateConceptMapUpdate_def Let_def orEmpty_def length_addNode)
qed

lemma exUpdate_result:
  "mergeAll [exUpdate] = \<lparr>nodes = [exNode ''Plant'', exNode ''Light''],
                            links = [exLink ''Plant'' ''Light'' (Some ''needs'')]\<rparr>"
  by code_simp

lemma addLink_added:
  assumes "addLink ns ls l \<noteq> ls"
  shows "\<exists>s \<in> set ns. \<exists>t \<in> set ns.
           toLowerCase (node_label s) = toLowerCase (link_source l) \<and>
           toLowerCase (node_label t) = toLowerCase (link_target l) \<and>
           addLink ns ls l = ls @ [\<lparr>link_source = node_label s, link_target = node_label t,
                                    link_label = link_label l\<rparr>]"
proof -
  obtain s where s: "find (\<lambda>n. toLowerCase (node_label n) = toLowerCase (link_source l)) ns = Some s"
    using assms by (cases "find (\<lambda>n. toLowerCase (node_label n) = toLowerCase (link_source l)) ns")
      (auto simp: addLink_cases)
  obtain t where t: "find (\<lambda>n. toLowerCase (node_label n) = toLowerCase (link_target l)) ns = Some t"
    using assms s by (cases "find (\<lambda>n. toLowerCase (node_label n) = toLowerCase (link_target l)) ns")
      (auto simp: addLink_cases)
  have "addLink ns ls l = ls @ [\<lparr>link_source = node_label s, link_target = node_label t,
                                  link_label = link_label l\<rparr>]"
    using assms s t by (auto simp: addLink_cases split: if_splits)
  then show ?thesis
    using find_Some_set [OF s] find_Some_set [OF t] by blast
qed

lemma merge_links_unfold:
  "links (generateConceptMapUpdate upd m) =
     foldl (addLink (nodes (generateConceptMapUpdate upd m))) (links m) (orEmpty (newLinks upd))"
  by (simp add: generateConceptMapUpdate_def Let_def)

lemma merge_nodes_prefix: "\<exists>zs. nodes (generateConceptMapUpdate upd m) = nodes m @ zs"
  using foldl_addNode_prefix [of "nodes m" "orEmpty (newNodes upd)"]
  by (simp add: generateConceptMapUpdate_def Let_def)

lemma orEmpty_simps: "orEmpty None = []" "orEmpty (Some ys) = ys"
  by (simp_all add: orEmpty_def)

lemma merge_twice_links:
  assumes "toLowerCase (link_source l') = toLowerCase (link_source l)"
      and "toLowerCase (link_target l') = toLowerCase (link_target l)"
      and "resolves (nodes (generateConceptMapUpdate \<lparr>newNodes = nn, newLinks = Some [l]\<rparr> m)) (link_source l)"
      and "resolves (nodes (generateConceptMapUpdate \<lparr>newNodes = nn, newLinks = Some [l]\<rparr> m)) (link_target l)"
  shows "links (generateConceptMapUpdate \<lparr>newNodes = nn', newLinks = Some [l']\<rparr>
                  (generateConceptMapUpdate \<lparr>newNodes = nn, newLinks = Some [l]\<rparr> m)) =
         links (generateConceptMapUpdate \<lparr>newNodes = nn, newLinks = Some [l]\<rparr> m)"
proof -
  define ns1 where "ns1 = foldl addNode (nodes m) (orEmpty nn)"
  have g1: "generateConceptMapUpdate \<lparr>newNodes = nn, newLinks = Some [l]\<rparr> m =
              \<lparr>nodes = ns1, links = addLink ns1 (links m) l\<rparr>"
    by (simp add: generateConceptMapUpdate_def Let_def orEmpty_simps ns1_def)
  obtain zs where zs: "foldl addNode ns1 (orEmpty nn') = ns1 @ zs"
    using foldl_addNode_prefix by blast
  have r: "resolves ns1 (link_source l)" "resolves ns1 (link_target l)"
    using assms(3,4) by (simp_all add: g1)
  have "addLink (ns1 @ zs) (addLink ns1 (links m) l) l' = addLink ns1 (links m) l"
    using assms(1,2) r by (rule addLink_twice_grown)
  then have "links (generateConceptMapUpdate \<lparr>newNodes = nn', newLinks = Some [l']\<rparr>
                  \<lparr>nodes = ns1, links = addLink ns1 (links m) l\<rparr>) = addLink ns1 (links m) l"
    by (simp add: generateConceptMapUpdate_def Let_def orEmpty_simps zs)
  then show ?thesis
    by (simp add: g1)
qed

lemma addLink_existing_pair:
  assumes "find (\<lambda>n. toLowerCase (node_label n) = toLowerCase (link_source l)) ns = Some s"
      and "find (\<lambda>n. toLowerCase (node_label n) = toLowerCase (link_target l)) ns = Some t"
      and "(node_label s, node_label t) \<in> linkPair ` set ls"
  shows "addLink ns ls l = ls"
  using assms by (simp add: addLink_cases)

section \<open>Merge: the claims\<close>

text \<open>
  Claim C3. After any sequence of merges from the empty map no stored link dangles: the
  source and the target of every stored link are the labels of stored nodes. The links of one
  merge are resolved against the nodes as they are after that merge's nodes were added;
  a proposed link with an endpoint that does not resolve leaves the links as they were
  (nothing is kept for a later merge), and a link that is added carries the labels of the
  stored nodes its endpoints match without regard to case.
\<close>

theorem merge_links_never_dangle:
  "noDangling (mergeAll upds)
   \<and> links (generateConceptMapUpdate upd m) =
       foldl (addLink (nodes (generateConceptMapUpdate upd m))) (links m) (orEmpty (newLinks upd))
   \<and> (\<not> resolves ns (link_source l) \<or> \<not> resolves ns (link_target l) \<longrightarrow> addLink ns ls l = ls)
   \<and> (addLink ns ls l \<noteq> ls \<longrightarrow>
        (\<exists>s \<in> set ns. \<exists>t \<in> set ns.
           toLowerCase (node_label s) = toLowerCase (link_source l) \<and>
           toLowerCase (node_label t) = toLowerCase (link_target l) \<and>
           addLink ns ls l = ls @ [\<lparr>link_source = node_label s, link_target = node_label t,
                                    link_label = link_label l\<rparr>]))"
  using noDangling_mergeAll merge_links_unfold addLink_unresolved addLink_added by blast

theorem merge_links_never_dangle_witness:
  "links (mergeAll [exUpdate]) = [exLink ''Plant'' ''Light'' (Some ''needs'')]
   \<and> noDangling (mergeAll [exUpdate])
   \<and> \<not> resolves (nodes (mergeAll [exUpdate])) ''Water''
   \<and> addLink (nodes (mergeAll [exUpdate])) [] (exLink ''Plant'' ''Water'' None) = []
   \<and> addLink (nodes (mergeAll [exUpdate])) [] (exLink ''plant'' ''LIGHT'' (Some ''needs'')) \<noteq> []
   \<and> (\<exists>s \<in> set (nodes (mergeAll [exUpdate])). \<exists>t \<in> set (nodes (mergeAll [exUpdate])).
         addLink (nodes (mergeAll [exUpdate])) [] (exLink ''plant'' ''LIGHT'' (Some ''needs'')) =
           [\<lparr>link_source = node_label s, link_target = node_label t, link_label = Some ''needs''\<rparr>])"
proof -
  have a: "links (mergeAll [exUpdate]) = [exLink ''Plant'' ''Light'' (Some ''needs'')]"
    by (simp add: exUpdate_result)
  have b: "\<not> resolves (nodes (mergeAll [exUpdate])) (link_source (exLink ''Plant'' ''Water'' None))
           \<or> \<not> resolves (nodes (mergeAll [exUpdate])) (link_target (exLink ''Plant'' ''Water'' None))"
    by code_simp
  have b': "\<not> resolves (nodes (mergeAll [exUpdate])) ''Water''"
    by code_simp
  have c: "addLink (nodes (mergeAll [exUpdate])) [] (exLink ''plant'' ''LIGHT'' (Some ''needs'')) \<noteq> []"
    by code_simp
  note t1 = merge_links_never_dangle [of "[exUpdate]" exUpdate emptyMap "nodes (mergeAll [exUpdate])"
      "exLink ''Plant'' ''Water'' None" "[]"]
  note t2 = merge_links_never_dangle [of "[exUpdate]" exUpdate emptyMap "nodes (mergeAll [exUpdate])"
      "exLink ''plant'' ''LIGHT'' (Some ''needs'')" "[]"]
  have d: "addLink (nodes (mergeAll [exUpdate])) [] (exLink ''Plant'' ''Water'' None) = []"
    using t1 b by blast
  have e: "\<exists>s \<in> set (nodes (mergeAll [exUpdate])). \<exists>t \<in> set (nodes (mergeAll [exUpdate])).
         addLink (nodes (mergeAll [exUpdate])) [] (exLink ''plant'' ''LIGHT'' (Some ''needs'')) =
           [\<lparr>link_source = node_label s, link_target = node_label t, link_label = Some ''needs''\<rparr>]"
    using t2 c by (auto simp: exLink_def)
  have f: "noDangling (mergeAll [exUpdate])"
    using t1 by blast
  show ?thesis
    using a b' c d e f by blast
qed

text \<open>
  Claim C4, as amended. A proposed label that matches a stored label without regard to case
  adds no node, and neither does the second of two proposals that differ only in case: after
  a merge the number of nodes matching a label is one if none matched before and some
  proposal matches, and is unchanged otherwise. Merging the proposals Democracy and
  democracy into a map adds exactly one node when no stored label matches democracy, and
  none when one does.
\<close>

theorem merge_node_case_dedup:
  "(resolves ns c \<longrightarrow> length (addNode ns c) = length ns)
   \<and> (toLowerCase a = toLowerCase b \<longrightarrow> length (addNode (addNode ns a) b) = length (addNode ns a))
   \<and> countLabel (nodes (generateConceptMapUpdate upd m)) s =
        (if countLabel (nodes m) s = 0 \<and> (\<exists>c \<in> set (orEmpty (newNodes upd)). toLowerCase c = toLowerCase s)
         then 1 else countLabel (nodes m) s)
   \<and> length (nodes (generateConceptMapUpdate
                       \<lparr>newNodes = Some [''Democracy'', ''democracy''], newLinks = nl\<rparr> m)) =
        length (nodes m) + (if resolves (nodes m) ''democracy'' then 0 else 1)"
proof -
  have 1: "resolves ns c \<longrightarrow> length (addNode ns c) = length ns"
    by (simp add: addNode_resolved)
  have 2: "toLowerCase a = toLowerCase b \<longrightarrow> length (addNode (addNode ns a) b) = length (addNode ns a)"
    by (simp add: addNode_twice)
  have 3: "countLabel (nodes (generateConceptMapUpdate upd m)) s =
        (if countLabel (nodes m) s = 0 \<and> (\<exists>c \<in> set (orEmpty (newNodes upd)). toLowerCase c = toLowerCase s)
         then 1 else countLabel (nodes m) s)"
    using countLabel_foldl_addNode [of "nodes m" "orEmpty (newNodes upd)" s]
    by (simp add: generateConceptMapUpdate_def Let_def)
  show ?thesis
    using 1 2 3 democracy_count [of nl m] by blast
qed

theorem merge_node_case_dedup_witness:
  "resolves exNodes ''PLANT''
   \<and> length (addNode exNodes ''PLANT'') = length exNodes
   \<and> toLowerCase ''Democracy'' = toLowerCase ''democracy''
   \<and> length (addNode (addNode exNodes ''Democracy'') ''democracy'') = length (addNode exNodes ''Democracy'')
   \<and> countLabel (nodes (generateConceptMapUpdate exDemocracyUpdate emptyMap)) ''DEMOCRACY'' = 1
   \<and> length (nodes (generateConceptMapUpdate
                       \<lparr>newNodes = Some [''Democracy'', ''democracy''], newLinks = None\<rparr> emptyMap)) = 1
   \<and> length (nodes (generateConceptMapUpdate
                       \<lparr>newNodes = Some [''Democracy'', ''democracy''], newLinks = None\<rparr> exDemocracyMap)) = 1"
proof -
  note t1 = merge_node_case_dedup [of exNodes "''PLANT''" "''Democracy''" "''democracy''"
      exDemocracyUpdate emptyMap "''DEMOCRACY''" None]
  note t2 = merge_node_case_dedup [of exNodes "''PLANT''" "''Democracy''" "''democracy''"
      exDemocracyUpdate exDemocracyMap "''DEMOCRACY''" None]
  have h1: "resolves exNodes ''PLANT''"
    by code_simp
  have h2: "toLowerCase ''Democracy'' = toLowerCase ''democracy''"
    by code_simp
  have h3: "countLabel (nodes emptyMap) ''DEMOCRACY'' = 0 \<and>
            (\<exists>c \<in> set (orEmpty (newNodes exDemocracyUpdate)). toLowerCase c = toLowerCase ''DEMOCRACY'')"
    by code_simp
  have h4: "\<not> resolves (nodes emptyMap) ''democracy''"
    by code_simp
  have h5: "resolves (nodes exDemocracyMap) ''democracy''" "length (nodes exDemocracyMap) = 1"
    by code_simp+
  have c3: "countLabel (nodes (generateConceptMapUpdate exDemocracyUpdate emptyMap)) ''DEMOCRACY'' = 1"
    using t1 h3 by simp
  have c4: "length (nodes (generateConceptMapUpdate
                       \<lparr>newNodes = Some [''Democracy'', ''democracy''], newLinks = None\<rparr> emptyMap)) = 1"
    using t1 h4 by (simp add: emptyMap_def)
  have c5: "length (nodes (generateConceptMapUpdate
                       \<lparr>newNodes = Some [''Democracy'', ''democracy''], newLinks = None\<rparr> exDemocracyMap)) = 1"
    using t2 h5 by simp
  show ?thesis
    using t1 h1 h2 c3 c4 c5 by blast
qed

text \<open>
  The claim as stated speaks of any map: merged into a map that already holds the node
  Democracy, the two proposals add no node, not one.
\<close>

theorem merge_node_case_dedup_counterexample:
  "length (nodes (generateConceptMapUpdate exDemocracyUpdate exDemocracyMap)) \<noteq>
   length (nodes exDemocracyMap) + 1"
  by code_simp

text \<open>
  Claim C5. The stored links of any map reached from the empty map have pairwise different
  (source, target) pairs. A proposed link whose resolved pair is already stored leaves the
  links unchanged; proposing a link a second time, in any casing and with any label, changes
  nothing, in the same merge or in a later one; and a link that resolves has exactly one
  entry for its pair afterwards.
\<close>

theorem merge_links_idempotent:
  "distinct (map linkPair (links (mergeAll upds)))
   \<and> (find (\<lambda>n. toLowerCase (node_label n) = toLowerCase (link_source l)) ns = Some s
      \<and> find (\<lambda>n. toLowerCase (node_label n) = toLowerCase (link_target l)) ns = Some t
      \<and> (node_label s, node_label t) \<in> linkPair ` set ls \<longrightarrow> addLink ns ls l = ls)
   \<and> (toLowerCase (link_source l') = toLowerCase (link_source l)
      \<and> toLowerCase (link_target l') = toLowerCase (link_target l)
        \<longrightarrow> addLink ns (addLink ns ls l) l' = addLink ns ls l)
   \<and> (toLowerCase (link_source l') = toLowerCase (link_source l)
      \<and> toLowerCase (link_target l') = toLowerCase (link_target l)
      \<and> resolves (nodes (generateConceptMapUpdate \<lparr>newNodes = nn, newLinks = Some [l]\<rparr> m)) (link_source l)
      \<and> resolves (nodes (generateConceptMapUpdate \<lparr>newNodes = nn, newLinks = Some [l]\<rparr> m)) (link_target l)
        \<longrightarrow> links (generateConceptMapUpdate \<lparr>newNodes = nn', newLinks = Some [l']\<rparr>
                      (generateConceptMapUpdate \<lparr>newNodes = nn, newLinks = Some [l]\<rparr> m)) =
             links (generateConceptMapUpdate \<lparr>newNodes = nn, newLinks = Some [l]\<rparr> m))
   \<and> (distinct (map linkPair ls)
      \<and> find (\<lambda>n. toLowerCase (node_label n) = toLowerCase (link_source l)) ns = Some s
      \<and> find (\<lambda>n. toLowerCase (node_label n) = toLowerCase (link_target l)) ns = Some t
        \<longrightarrow> length (filter (\<lambda>e. linkPair e = (node_label s, node_label t)) (addLink ns ls l)) = 1)"
  using distinctPairs_mergeAll [of upds] addLink_existing_pair [of l ns s t ls]
    addLink_twice [of l' l ns ls] merge_twice_links [of l' l nn m nn']
    addLink_count_one [of ls l ns s t]
  by blast

theorem merge_links_idempotent_witness:
  "find (\<lambda>n. toLowerCase (node_label n) = toLowerCase (link_source (exLink ''PLANT'' ''light'' (Some ''uses'')))) exNodes
     = Some (exNode ''Plant'')
   \<and> find (\<lambda>n. toLowerCase (node_label n) = toLowerCase (link_target (exLink ''PLANT'' ''light'' (Some ''uses'')))) exNodes
     = Some (exNode ''Light'')
   \<and> (node_label (exNode ''Plant''), node_label (exNode ''Light'')) \<in> linkPair ` set exLinks
   \<and> addLink exNodes exLinks (exLink ''PLANT'' ''light'' (Some ''uses'')) = exLinks
   \<and> addLink exNodes (addLink exNodes [] (exLink ''PLANT'' ''light'' (Some ''uses''))) (exLink ''plant'' ''LIGHT'' None)
       = addLink exNodes [] (exLink ''PLANT'' ''light'' (Some ''uses''))
   \<and> links (generateConceptMapUpdate \<lparr>newNodes = None, newLinks = Some [exLink ''plant'' ''LIGHT'' None]\<rparr>
               (generateConceptMapUpdate \<lparr>newNodes = Some [''Plant'', ''Light''],
                                          newLinks = Some [exLink ''PLANT'' ''light'' (Some ''uses'')]\<rparr> emptyMap))
       = links (generateConceptMapUpdate \<lparr>newNodes = Some [''Plant'', ''Light''],
                                          newLinks = Some [exLink ''PLANT'' ''light'' (Some ''uses'')]\<rparr> emptyMap)
   \<and> length (filter (\<lambda>e. linkPair e = (node_label (exNode ''Plant''), node_label (exNode ''Light'')))
               (addLink exNodes exLinks (exLink ''PLANT'' ''light'' (Some ''uses'')))) = 1
   \<and> length (filter (\<lambda>e. linkPair e = (node_label (exNode ''Plant''), node_label (exNode ''Light'')))
               (addLink exNodes [] (exLink ''PLANT'' ''light'' (Some ''uses'')))) = 1
   \<and> distinct (map linkPair (links (mergeAll [exUpdate])))"
proof -
  note t = merge_links_idempotent [of "[exUpdate]" "exLink ''PLANT'' ''light'' (Some ''uses'')" exNodes
      "exNode ''Plant''" "exNode ''Light''" exLinks "exLink ''plant'' ''LIGHT'' None"
      "Some [''Plant'', ''Light'']" emptyMap None]
  note t0 = merge_links_idempotent [of "[exUpdate]" "exLink ''PLANT'' ''light'' (Some ''uses'')" exNodes
      "exNode ''Plant''" "exNode ''Light''" "[]" "exLink ''plant'' ''LIGHT'' None"
      "Some [''Plant'', ''Light'']" emptyMap None]
  have h1: "find (\<lambda>n. toLowerCase (node_label n) = toLowerCase (link_source (exLink ''PLANT'' ''light'' (Some ''uses'')))) exNodes
     = Some (exNode ''Plant'')"
    by code_simp
  have h2: "find (\<lambda>n. toLowerCase (node_label n) = toLowerCase (link_target (exLink ''PLANT'' ''light'' (Some ''uses'')))) exNodes
     = Some (exNode ''Light'')"
    by code_simp
  have h3: "(node_label (exNode ''Plant''), node_label (exNode ''Light'')) \<in> linkPair ` set exLinks"
    by (simp add: exLinks_def exLink_def exNode_def linkPair_def)
  have h4: "toLowerCase (link_source (exLink ''plant'' ''LIGHT'' None)) =
            toLowerCase (link_source (exLink ''PLANT'' ''light'' (Some ''uses'')))"
    by code_simp
  have h5: "toLowerCase (link_target (exLink ''plant'' ''LIGHT'' None)) =
            toLowerCase (link_target (exLink ''PLANT'' ''light'' (Some ''uses'')))"
    by code_simp
  have h6: "resolves (nodes (generateConceptMapUpdate \<lparr>newNodes = Some [''Plant'', ''Light''],
               newLinks = Some [exLink ''PLANT'' ''light'' (Some ''uses'')]\<rparr> emptyMap))
             (link_source (exLink ''PLANT'' ''light'' (Some ''uses'')))"
    by code_simp
  have h7: "resolves (nodes (generateConceptMapUpdate \<lparr>newNodes = Some [''Plant'', ''Light''],
               newLinks = Some [exLink ''PLANT'' ''light'' (Some ''uses'')]\<rparr> emptyMap))
             (link_target (exLink ''PLANT'' ''light'' (Some ''uses'')))"
    by code_simp
  have h8: "distinct (map linkPair exLinks)"
    by (simp add: exLinks_def)
  have h9: "distinct (map linkPair ([] :: ConceptLink list))"
    by simp
  have c1: "addLink exNodes exLinks (exLink ''PLANT'' ''light'' (Some ''uses'')) = exLinks"
    using t h1 h2 h3 by blast
  have c2: "addLink exNodes (addLink exNodes [] (exLink ''PLANT'' ''light'' (Some ''uses''))) (exLink ''plant'' ''LIGHT'' None)
       = addLink exNodes [] (exLink ''PLANT'' ''light'' (Some ''uses''))"
    using t0 h4 h5 by blast
  have c3: "links (generateConceptMapUpdate \<lparr>newNodes = None, newLinks = Some [exLink ''plant'' ''LIGHT'' None]\<rparr>
               (generateConceptMapUpdate \<lparr>newNodes = Some [''Plant'', ''Light''],
                                          newLinks = Some [exLink ''PLANT'' ''light'' (Some ''uses'')]\<rparr> emptyMap))
       = links (generateConceptMapUpdate \<lparr>newNodes = Some [''Plant'', ''Light''],
                                          newLinks = Some [exLink ''PLANT'' ''light'' (Some ''uses'')]\<rparr> emptyMap)"
    using t h4 h5 h6 h7 by blast
  have c4: "length (filter (\<lambda>e. linkPair e = (node_label (exNode ''Plant''), node_label (exNode ''Light'')))
               (addLink exNodes exLinks (exLink ''PLANT'' ''light'' (Some ''uses'')))) = 1"
    using t h1 h2 h8 by blast
  have c5: "length (filter (\<lambda>e. linkPair e = (node_label (exNode ''Plant''), node_label (exNode ''Light'')))
               (addLink exNodes [] (exLink ''PLANT'' ''light'' (Some ''uses'')))) = 1"
    using t0 h1 h2 h9 by blast
  have c6: "distinct (map linkPair (links (mergeAll [exUpdate])))"
    using t by blast
  show ?thesis
    using h1 h2 h3 c1 c2 c3 c4 c5 c6 by blast
qed

text \<open>
  Claim C9. Every node stored by a merge has its id equal to its label, and a new node is
  stored with the proposed label verbatim. A proposal that matches a stored label without
  regard to case leaves the nodes unchanged, so the earlier casing stays: that of the stored
  node, or of the first of two proposals in one merge. A merge only appends nodes, no two
  stored labels match without regard to case, and an added link carries the labels of the
  stored nodes that its endpoints match.
\<close>

theorem merge_id_is_label_first_casing:
  "(\<forall>n \<in> set (nodes (mergeAll upds)). node_id n = node_label n)
   \<and> (\<not> resolves ns c \<longrightarrow>
        addNode ns c = ns @ [\<lparr>node_id = c, node_label = c, node_x = 0, node_y = 0,
                               node_vx = None, node_vy = None\<rparr>])
   \<and> (resolves ns c \<longrightarrow> addNode ns c = ns)
   \<and> (toLowerCase a = toLowerCase b \<longrightarrow> addNode (addNode ns a) b = addNode ns a)
   \<and> (\<exists>zs. nodes (generateConceptMapUpdate upd m) = nodes m @ zs)
   \<and> distinct (map (\<lambda>n. toLowerCase (node_label n)) (nodes (mergeAll upds)))
   \<and> (addLink ns ls l \<noteq> ls \<longrightarrow>
        (\<exists>s \<in> set ns. \<exists>t \<in> set ns.
           toLowerCase (node_label s) = toLowerCase (link_source l) \<and>
           toLowerCase (node_label t) = toLowerCase (link_target l) \<and>
           addLink ns ls l = ls @ [\<lparr>link_source = node_label s, link_target = node_label t,
                                    link_label = link_label l\<rparr>]))"
proof -
  have 2: "\<not> resolves ns c \<longrightarrow>
        addNode ns c = ns @ [\<lparr>node_id = c, node_label = c, node_x = 0, node_y = 0,
                               node_vx = None, node_vy = None\<rparr>]"
    by (simp add: addNode_cases)
  show ?thesis
    using idLabel_mergeAll [of upds] 2 addNode_resolved [of ns c] addNode_twice [of a b ns]
      merge_nodes_prefix [of upd m] ciDistinct_mergeAll [of upds] addLink_added [of ns ls l]
    by blast
qed

theorem merge_id_is_label_first_casing_witness:
  "nodes (mergeAll [exUpdate, exDemocracyUpdate]) = [exNode ''Plant'', exNode ''Light'', exNode ''Democracy'']
   \<and> list_all (\<lambda>n. node_id n = node_label n) (nodes (mergeAll [exUpdate, exDemocracyUpdate]))
   \<and> \<not> resolves exNodes ''Water''
   \<and> addNode exNodes ''Water'' = exNodes @ [exNode ''Water'']
   \<and> resolves exNodes ''PLANT''
   \<and> addNode exNodes ''PLANT'' = exNodes
   \<and> toLowerCase ''Democracy'' = toLowerCase ''democracy''
   \<and> addNode (addNode exNodes ''Democracy'') ''democracy'' = addNode exNodes ''Democracy''
   \<and> addLink exNodes [] (exLink ''plant'' ''LIGHT'' (Some ''needs'')) \<noteq> []
   \<and> (\<exists>s \<in> set exNodes. \<exists>t \<in> set exNodes.
         addLink exNodes [] (exLink ''plant'' ''LIGHT'' (Some ''needs'')) =
           [\<lparr>link_source = node_label s, link_target = node_label t, link_label = Some ''needs''\<rparr>])"
proof -
  note t1 = merge_id_is_label_first_casing [of "[exUpdate, exDemocracyUpdate]" exNodes "''Water''"
      "''Democracy''" "''democracy''" exUpdate emptyMap "[]" "exLink ''plant'' ''LIGHT'' (Some ''needs'')"]
  note t2 = merge_id_is_label_first_casing [of "[exUpdate, exDemocracyUpdate]" exNodes "''PLANT''"
      "''Democracy''" "''democracy''" exUpdate emptyMap "[]" "exLink ''plant'' ''LIGHT'' (Some ''needs'')"]
  have h0: "nodes (mergeAll [exUpdate, exDemocracyUpdate]) = [exNode ''Plant'', exNode ''Light'', exNode ''Democracy'']"
    by code_simp
  have h1: "\<not> resolves exNodes ''Water''"
    by code_simp
  have h2: "resolves exNodes ''PLANT''"
    by code_simp
  have h3: "toLowerCase ''Democracy'' = toLowerCase ''democracy''"
    by code_simp
  have h4: "addLink exNodes [] (exLink ''plant'' ''LIGHT'' (Some ''needs'')) \<noteq> []"
    by code_simp
  have c1: "addNode exNodes ''Water'' = exNodes @ [exNode ''Water'']"
    using t1 h1 by (simp add: exNode_def)
  have c2: "\<exists>s \<in> set exNodes. \<exists>t \<in> set exNodes.
         addLink exNodes [] (exLink ''plant'' ''LIGHT'' (Some ''needs'')) =
           [\<lparr>link_source = node_label s, link_target = node_label t, link_label = Some ''needs''\<rparr>]"
    using t1 h4 by (auto simp: exLink_def)
  have c0: "list_all (\<lambda>n. node_id n = node_label n) (nodes (mergeAll [exUpdate, exDemocracyUpdate]))"
    using t1 by (simp add: list_all_iff)
  show ?thesis
    using t2 h0 h1 h2 h3 h4 c0 c1 c2 by blast
qed

section \<open>Layout: one tick\<close>

lemma fold_keeps:
  assumes "\<And>x s. I s \<Longrightarrow> I (g x s)" "I s"
  shows "I (fold g xs s)"
  using assms(2) by (induction xs arbitrary: s) (simp_all add: assms(1))

lemma list_all2_update_right:
  assumes "list_all2 R xs ys" "i < length ys \<Longrightarrow> R (xs ! i) y"
  shows "list_all2 R xs (ys[i := y])"
proof (cases "i < length ys")
  case True
  then show ?thesis
    using assms by (auto simp: list_all2_conv_all_nth nth_list_update)
next
  case False
  then have "ys[i := y] = ys"
    by (simp add: not_less list_update_beyond)
  then show ?thesis using assms(1) by simp
qed

lemma pairStep_keeps:
  assumes "\<And>a u v. R a u \<Longrightarrow> R a (fst (f u v))"
      and "\<And>a u v. R a v \<Longrightarrow> R a (snd (f u v))"
      and "list_all2 R xs ms"
  shows "list_all2 R xs (pairStep f i j ms)"
proof -
  have len: "length xs = length ms"
    using assms(3) by (rule list_all2_lengthD)
  have 1: "list_all2 R xs (ms[i := fst (f (ms ! i) (ms ! j))])"
    using assms(3)
  proof (rule list_all2_update_right)
    assume "i < length ms"
    then have "R (xs ! i) (ms ! i)"
      using assms(3) len by (simp add: list_all2_nthD)
    then show "R (xs ! i) (fst (f (ms ! i) (ms ! j)))" by (rule assms(1))
  qed
  have 2: "list_all2 R xs (ms[i := fst (f (ms ! i) (ms ! j)), j := snd (f (ms ! i) (ms ! j))])"
    using 1
  proof (rule list_all2_update_right)
    assume "j < length (ms[i := fst (f (ms ! i) (ms ! j))])"
    then have "R (xs ! j) (ms ! j)"
      using assms(3) len by (simp add: list_all2_nthD)
    then show "R (xs ! j) (snd (f (ms ! i) (ms ! j)))" by (rule assms(2))
  qed
  show ?thesis
    using 2 by (simp add: pairStep_def case_prod_beta)
qed

lemma repulsePair_keeps:
  assumes "velClosed d R"
  shows "R a u \<Longrightarrow> R a (fst (repulsePair d u v))" "R a v \<Longrightarrow> R a (snd (repulsePair d u v))"
  using assms by (simp_all add: repulsePair_def Let_def velClosed_def)

lemma centerNode_keeps:
  assumes "velClosed d R" "R a u"
  shows "R a (centerNode cx cy d u)"
  using assms by (simp add: centerNode_def velClosed_def)

lemma repulsion_keeps:
  assumes "velClosed d R" "list_all2 R xs ms"
  shows "list_all2 R xs (repulsion w h d ms)"
  unfolding repulsion_def
proof (rule fold_keeps [where I = "list_all2 R xs"])
  fix i s
  assume s: "list_all2 R xs s"
  define s' where "s' = fold (pairStep (repulsePair d) i) [Suc i..<length s] s"
  have s': "list_all2 R xs s'"
    unfolding s'_def
    by (rule fold_keeps [where I = "list_all2 R xs"])
       (rule pairStep_keeps, erule repulsePair_keeps(1) [OF assms(1)],
        erule repulsePair_keeps(2) [OF assms(1)], assumption, rule s)
  have "list_all2 R xs (s'[i := centerNode (w / 2) (h / 2) d (s' ! i)])"
    using s'
  proof (rule list_all2_update_right)
    assume "i < length s'"
    then have "R (xs ! i) (s' ! i)"
      using s' by (simp add: list_all2_nthD2)
    then show "R (xs ! i) (centerNode (w / 2) (h / 2) d (s' ! i))"
      by (rule centerNode_keeps [OF assms(1)])
  qed
  then show "list_all2 R xs (let ms' = fold (pairStep (repulsePair d) i) [Suc i..<length s] s
                              in ms'[i := centerNode (w / 2) (h / 2) d (ms' ! i)])"
    by (simp add: s'_def Let_def)
next
  show "list_all2 R xs ms" by (rule assms(2))
qed

lemma attractLink_keeps:
  assumes "velClosed d R" "list_all2 R xs ms"
  shows "list_all2 R xs (attractLink d link ms)"
proof (cases "findIndex (\<lambda>n. node_label n = link_source link) ms")
  case None
  then show ?thesis using assms(2) by (simp add: attractLink_def)
next
  case (Some si)
  note si = Some
  show ?thesis
  proof (cases "findIndex (\<lambda>n. node_label n = link_target link) ms")
    case None
    then show ?thesis using assms(2) si by (simp add: attractLink_def)
  next
    case (Some ti)
    have upd: "list_all2 R xs (if Some (node_id (zs ! k)) \<noteq> d
                  then zs[k := (zs ! k)\<lparr>node_vx := p, node_vy := q\<rparr>] else zs)"
      if "list_all2 R xs zs" for zs k p q
    proof (cases "Some (node_id (zs ! k)) \<noteq> d")
      case True
      have "list_all2 R xs (zs[k := (zs ! k)\<lparr>node_vx := p, node_vy := q\<rparr>])"
        using that
      proof (rule list_all2_update_right)
        assume "k < length zs"
        then have "R (xs ! k) (zs ! k)"
          using that by (simp add: list_all2_nthD2)
        then show "R (xs ! k) ((zs ! k)\<lparr>node_vx := p, node_vy := q\<rparr>)"
          using assms(1) True by (simp add: velClosed_def)
      qed
      with True show ?thesis by simp
    next
      case False
      with that show ?thesis by simp
    qed
    show ?thesis
      unfolding attractLink_def si Some option.case Let_def
      by (rule upd, rule upd, rule assms(2))
  qed
qed

lemma attraction_keeps:
  assumes "velClosed d R" "list_all2 R xs ms"
  shows "list_all2 R xs (attraction d ls ms)"
  unfolding attraction_def
  by (rule fold_keeps [where I = "list_all2 R xs"]) (rule attractLink_keeps [OF assms(1)], assumption, rule assms(2))

lemma forces_keeps:
  assumes "velClosed d R" "list_all2 R xs ms"
  shows "list_all2 R xs (forces w h d ls ms)"
  unfolding forces_def
  by (rule attraction_keeps [OF assms(1)], rule repulsion_keeps [OF assms])

lemma collidePair_keeps:
  assumes "collClosed d R"
  shows "R a u \<Longrightarrow> R a (fst (collidePair d u v))" "R a v \<Longrightarrow> R a (snd (collidePair d u v))"
  using assms by (simp_all add: collidePair_def Let_def collClosed_def)

lemma collisionPass_keeps:
  assumes "collClosed d R" "list_all2 R xs ms"
  shows "list_all2 R xs (collisionPass d ms)"
  unfolding collisionPass_def
proof (rule fold_keeps [where I = "list_all2 R xs"])
  fix i s
  assume s: "list_all2 R xs s"
  show "list_all2 R xs (fold (pairStep (collidePair d) i) [Suc i..<length s] s)"
    by (rule fold_keeps [where I = "list_all2 R xs"])
       (rule pairStep_keeps, erule collidePair_keeps(1) [OF assms(1)],
        erule collidePair_keeps(2) [OF assms(1)], assumption, rule s)
next
  show "list_all2 R xs ms" by (rule assms(2))
qed

lemma collision_keeps:
  assumes "collClosed d R" "list_all2 R xs ms"
  shows "list_all2 R xs (collision d ms)"
  unfolding collision_def
  by (intro collisionPass_keeps [OF assms(1)] assms(2))

lemma velClosed_sameIdentity: "velClosed d sameIdentity"
  by (simp add: velClosed_def sameIdentity_def)

lemma collClosed_sameIdentity: "collClosed d sameIdentity"
  by (simp add: collClosed_def sameIdentity_def)

lemma velClosed_draggedSame: "velClosed d (draggedSame d)"
  by (auto simp: velClosed_def draggedSame_def)

lemma velClosed_draggedInPlace: "velClosed d (draggedInPlace d)"
  by (auto simp: velClosed_def draggedInPlace_def)

lemma collClosed_draggedInPlace: "collClosed d (draggedInPlace d)"
  by (auto simp: collClosed_def draggedInPlace_def)

lemma forces_sameIdentity: "list_all2 sameIdentity ns (forces w h d ls ns)"
  by (rule forces_keeps [OF velClosed_sameIdentity]) (simp add: list_all2_refl sameIdentity_def)

lemma forces_draggedSame: "list_all2 (draggedSame d) ns (forces w h d ls ns)"
  by (rule forces_keeps [OF velClosed_draggedSame]) (simp add: list_all2_refl draggedSame_def)

lemma phases_sameIdentity: "list_all2 sameIdentity ns (collision d (forces w h d ls ns))"
  by (rule collision_keeps [OF collClosed_sameIdentity]) (rule forces_sameIdentity)

lemma phases_draggedInPlace: "list_all2 (draggedInPlace d) ns (collision d (forces w h d ls ns))"
  by (rule collision_keeps [OF collClosed_draggedInPlace], rule forces_keeps [OF velClosed_draggedInPlace])
     (simp add: list_all2_refl draggedInPlace_def)

lemma length_forces: "length (forces w h d ls ns) = length ns"
  using forces_sameIdentity [of ns w h d ls] by (simp add: list_all2_lengthD)

lemma length_phases: "length (collision d (forces w h d ls ns)) = length ns"
  using phases_sameIdentity [of ns d w h ls] by (simp add: list_all2_lengthD)

lemma length_simulate: "length (simulate w h d dragPos ls ns) = length ns"
  by (simp add: simulate_def length_phases)

lemma simulate_nth:
  "i < length ns \<Longrightarrow>
   simulate w h d dragPos ls ns ! i = finishNode w h d dragPos (collision d (forces w h d ls ns) ! i)"
  by (simp add: simulate_def length_phases)

lemma phases_id:
  "i < length ns \<Longrightarrow> node_id (collision d (forces w h d ls ns) ! i) = node_id (ns ! i)"
  using list_all2_nthD [OF phases_sameIdentity, of i ns d w h ls] by (simp add: sameIdentity_def)

lemma phases_label:
  "i < length ns \<Longrightarrow> node_label (collision d (forces w h d ls ns) ! i) = node_label (ns ! i)"
  using list_all2_nthD [OF phases_sameIdentity, of i ns d w h ls] by (simp add: sameIdentity_def)

lemma forces_dragged_unchanged:
  "i < length ns \<Longrightarrow> Some (node_id (ns ! i)) = d \<Longrightarrow> forces w h d ls ns ! i = ns ! i"
  using list_all2_nthD [OF forces_draggedSame, of i ns d w h ls] by (simp add: draggedSame_def)

lemma phases_dragged_position:
  "i < length ns \<Longrightarrow> Some (node_id (ns ! i)) = d \<Longrightarrow>
   node_x (collision d (forces w h d ls ns) ! i) = node_x (ns ! i) \<and>
   node_y (collision d (forces w h d ls ns) ! i) = node_y (ns ! i)"
  using list_all2_nthD [OF phases_draggedInPlace, of i ns d w h ls] by (simp add: draggedInPlace_def)

lemma integrate_alt:
  "integrate w h n =
     n\<lparr>node_x := max boundaryMargin (min (w - boundaryMargin) (node_x n + settle (node_vx n))),
       node_y := max boundaryMargin (min (h - boundaryMargin) (node_y n + settle (node_vy n))),
       node_vx := Some (settle (node_vx n)),
       node_vy := Some (settle (node_vy n))\<rparr>"
  unfolding integrate_def settle_def Let_def by (rule refl)

lemma integrate_x:
  "node_x (integrate w h n) =
     max boundaryMargin (min (w - boundaryMargin) (node_x n + orZero (node_vx (integrate w h n))))"
  by (simp add: integrate_alt orZero_def)

lemma integrate_y:
  "node_y (integrate w h n) =
     max boundaryMargin (min (h - boundaryMargin) (node_y n + orZero (node_vy (integrate w h n))))"
  by (simp add: integrate_alt orZero_def)

lemma clamp_bounds: "(lo::real) \<le> max lo (min hi v) \<and> max lo (min hi v) \<le> max lo hi"
  by (simp add: max_def min_def)

lemma integrate_bounds:
  "boundaryMargin \<le> node_x (integrate w h n) \<and>
   node_x (integrate w h n) \<le> max boundaryMargin (w - boundaryMargin) \<and>
   boundaryMargin \<le> node_y (integrate w h n) \<and>
   node_y (integrate w h n) \<le> max boundaryMargin (h - boundaryMargin)"
proof -
  have x: "boundaryMargin \<le> node_x (integrate w h n) \<and>
           node_x (integrate w h n) \<le> max boundaryMargin (w - boundaryMargin)"
    by (subst (1 2) integrate_x) (rule clamp_bounds)
  have y: "boundaryMargin \<le> node_y (integrate w h n) \<and>
           node_y (integrate w h n) \<le> max boundaryMargin (h - boundaryMargin)"
    by (subst (1 2) integrate_y) (rule clamp_bounds)
  show ?thesis using x y by simp
qed

lemma integrate_identity:
  "node_id (integrate w h n) = node_id n \<and> node_label (integrate w h n) = node_label n"
  by (simp add: integrate_alt)

lemma finishNode_pinned:
  "Some (node_id n) = d \<Longrightarrow>
   finishNode w h d (Some p) n = n\<lparr>node_x := fst p, node_y := snd p, node_vx := Some 0, node_vy := Some 0\<rparr>"
  by (simp add: finishNode_def)

lemma finishNode_integrate:
  "dragPos = None \<or> Some (node_id n) \<noteq> d \<Longrightarrow> finishNode w h d dragPos n = integrate w h n"
  by (auto simp: finishNode_def split: option.splits)

lemma fold_rel:
  assumes "\<And>x s t. Q s t \<Longrightarrow> Q (g x s) (g' x t)" "Q s t"
  shows "Q (fold g xs s) (fold g' xs t)"
  using assms(2) by (induction xs arbitrary: s t) (simp_all add: assms(1))

lemma findIndex_less: "findIndex P xs = Some i \<Longrightarrow> i < length xs"
  by (induction xs arbitrary: i) (auto split: if_splits option.splits)

lemma findIndex_label_agree:
  "list_all2 (othersAgree d) ms ms' \<Longrightarrow>
   findIndex (\<lambda>n. node_label n = s) ms = findIndex (\<lambda>n. node_label n = s) ms'"
  by (induction rule: list_all2_induct) (simp_all add: othersAgree_def)

lemma othersAgree_nth:
  "list_all2 (othersAgree d) ms ms' \<Longrightarrow> k < length ms \<Longrightarrow> othersAgree d (ms ! k) (ms' ! k)"
  by (rule list_all2_nthD)

lemma repulsePair_agree:
  assumes "othersAgree d u u'" "othersAgree d v v'"
  shows "othersAgree d (fst (repulsePair d u v)) (fst (repulsePair None u' v'))"
    and "othersAgree d (snd (repulsePair d u v)) (snd (repulsePair None u' v'))"
  using assms by (auto simp: repulsePair_def Let_def othersAgree_def)

lemma centerNode_agree:
  assumes "othersAgree d u u'"
  shows "othersAgree d (centerNode cx cy d u) (centerNode cx cy None u')"
  using assms by (auto simp: centerNode_def othersAgree_def)

lemma pairStep_agree:
  assumes "\<And>u u' v v'. R u u' \<Longrightarrow> R v v' \<Longrightarrow> R (fst (f u v)) (fst (f' u' v'))"
      and "\<And>u u' v v'. R u u' \<Longrightarrow> R v v' \<Longrightarrow> R (snd (f u v)) (snd (f' u' v'))"
      and "list_all2 R ms ms'" "i < length ms" "j < length ms"
  shows "list_all2 R (pairStep f i j ms) (pairStep f' i j ms')"
proof -
  have u: "R (ms ! i) (ms' ! i)" and v: "R (ms ! j) (ms' ! j)"
    using assms(3,4,5) by (simp_all add: list_all2_nthD)
  have "list_all2 R (ms[i := fst (f (ms ! i) (ms ! j)), j := snd (f (ms ! i) (ms ! j))])
                    (ms'[i := fst (f' (ms' ! i) (ms' ! j)), j := snd (f' (ms' ! i) (ms' ! j))])"
    by (intro list_all2_update_cong assms(3) assms(1) [OF u v] assms(2) [OF u v])
  then show ?thesis
    by (simp add: pairStep_def case_prod_beta)
qed

lemma fold_pairStep_agree:
  assumes "\<And>u u' v v'. R u u' \<Longrightarrow> R v v' \<Longrightarrow> R (fst (f u v)) (fst (f' u' v'))"
      and "\<And>u u' v v'. R u u' \<Longrightarrow> R v v' \<Longrightarrow> R (snd (f u v)) (snd (f' u' v'))"
      and "list_all2 R ms ms'" "i < length ms" "\<forall>j \<in> set js. j < length ms"
  shows "list_all2 R (fold (pairStep f i) js ms) (fold (pairStep f' i) js ms')"
  using assms(3,4,5)
proof (induction js arbitrary: ms ms')
  case Nil
  then show ?case by simp
next
  case (Cons j js)
  have j: "j < length ms"
    using Cons.prems(3) by simp
  have step: "list_all2 R (pairStep f i j ms) (pairStep f' i j ms')"
    using assms(1,2) Cons.prems(1,2) j by (rule pairStep_agree)
  have len: "length (pairStep f i j ms) = length ms"
    by (simp add: pairStep_def case_prod_beta)
  show ?case
    using Cons.IH [OF step] Cons.prems(2,3) len by simp
qed

lemma repulsion_outer_agree:
  assumes "list_all2 (othersAgree d) ms ms'" "\<forall>i \<in> set is. i < length ms"
  shows "list_all2 (othersAgree d)
           (fold (\<lambda>i ms. (let ms' = fold (pairStep (repulsePair d) i) [Suc i..<length ms] ms
                           in ms'[i := centerNode cx cy d (ms' ! i)])) is ms)
           (fold (\<lambda>i ms. (let ms' = fold (pairStep (repulsePair None) i) [Suc i..<length ms] ms
                           in ms'[i := centerNode cx cy None (ms' ! i)])) is ms')"
  using assms
proof (induction "is" arbitrary: ms ms')
  case Nil
  then show ?case by simp
next
  case (Cons i "is")
  have len: "length ms' = length ms"
    using Cons.prems(1) by (simp add: list_all2_lengthD)
  have i: "i < length ms"
    using Cons.prems(2) by simp
  define s where "s = fold (pairStep (repulsePair d) i) [Suc i..<length ms] ms"
  define s' where "s' = fold (pairStep (repulsePair None) i) [Suc i..<length ms] ms'"
  have inner: "list_all2 (othersAgree d) s s'"
    unfolding s_def s'_def
    by (rule fold_pairStep_agree [where R = "othersAgree d"])
       (simp_all add: repulsePair_agree Cons.prems(1) i)
  have ls: "length s = length ms"
    unfolding s_def by (rule fold_keeps [where I = "\<lambda>z. length z = length ms"])
      (simp_all add: pairStep_def case_prod_beta)
  have "othersAgree d (s ! i) (s' ! i)"
    using inner i ls by (simp add: list_all2_nthD)
  then have "othersAgree d (centerNode cx cy d (s ! i)) (centerNode cx cy None (s' ! i))"
    by (rule centerNode_agree)
  then have step: "list_all2 (othersAgree d) (s[i := centerNode cx cy d (s ! i)])
                      (s'[i := centerNode cx cy None (s' ! i)])"
    using inner by (intro list_all2_update_cong)
  have "\<forall>k \<in> set is. k < length (s[i := centerNode cx cy d (s ! i)])"
    using Cons.prems(2) ls by simp
  from Cons.IH [OF step this] show ?case
    by (simp add: Let_def s_def s'_def len)
qed

lemma repulsion_agree:
  "list_all2 (othersAgree d) (repulsion w h d ns) (repulsion w h None ns)"
  unfolding repulsion_def
  by (rule repulsion_outer_agree) (simp_all add: list_all2_refl othersAgree_def)

lemma velocity_update_agree:
  assumes "list_all2 (othersAgree d) zs zs'" "k < length zs"
  shows "list_all2 (othersAgree d)
           (if Some (node_id (zs ! k)) \<noteq> d
            then zs[k := (zs ! k)\<lparr>node_vx := Some (orZero (node_vx (zs ! k)) + p),
                                   node_vy := Some (orZero (node_vy (zs ! k)) + q)\<rparr>]
            else zs)
           (zs'[k := (zs' ! k)\<lparr>node_vx := Some (orZero (node_vx (zs' ! k)) + p),
                                 node_vy := Some (orZero (node_vy (zs' ! k)) + q)\<rparr>])"
proof -
  have k: "othersAgree d (zs ! k) (zs' ! k)"
    using assms by (rule othersAgree_nth)
  show ?thesis
  proof (cases "Some (node_id (zs ! k)) \<noteq> d")
    case True
    then have "zs' ! k = zs ! k"
      using k by (simp add: othersAgree_def)
    then show ?thesis
      using True assms(1) by (auto intro!: list_all2_update_cong simp: othersAgree_def)
  next
    case False
    have "list_all2 (othersAgree d) zs
            (zs'[k := (zs' ! k)\<lparr>node_vx := Some (orZero (node_vx (zs' ! k)) + p),
                                  node_vy := Some (orZero (node_vy (zs' ! k)) + q)\<rparr>])"
      using assms(1)
    proof (rule list_all2_update_right)
      show "othersAgree d (zs ! k)
              ((zs' ! k)\<lparr>node_vx := Some (orZero (node_vx (zs' ! k)) + p),
                         node_vy := Some (orZero (node_vy (zs' ! k)) + q)\<rparr>)"
        using k False by (simp add: othersAgree_def)
    qed
    with False show ?thesis by simp
  qed
qed

lemma attractLink_agree:
  assumes "list_all2 (othersAgree d) ms ms'"
  shows "list_all2 (othersAgree d) (attractLink d link ms) (attractLink None link ms')"
proof (cases "findIndex (\<lambda>n. node_label n = link_source link) ms")
  case None
  then show ?thesis
    using assms findIndex_label_agree [OF assms, of "link_source link"] by (simp add: attractLink_def)
next
  case (Some si)
  note si = Some
  have si': "findIndex (\<lambda>n. node_label n = link_source link) ms' = Some si"
    using findIndex_label_agree [OF assms, of "link_source link"] si by simp
  show ?thesis
  proof (cases "findIndex (\<lambda>n. node_label n = link_target link) ms")
    case None
    then show ?thesis
      using assms si si' findIndex_label_agree [OF assms, of "link_target link"]
      by (simp add: attractLink_def)
  next
    case (Some ti)
    have ti': "findIndex (\<lambda>n. node_label n = link_target link) ms' = Some ti"
      using findIndex_label_agree [OF assms, of "link_target link"] Some by simp
    have lsi: "si < length ms" and lti: "ti < length ms"
      using si Some by (auto dest: findIndex_less)
    have px: "node_x (ms' ! ti) = node_x (ms ! ti)" "node_x (ms' ! si) = node_x (ms ! si)"
             "node_y (ms' ! ti) = node_y (ms ! ti)" "node_y (ms' ! si) = node_y (ms ! si)"
      using othersAgree_nth [OF assms lsi] othersAgree_nth [OF assms lti]
      by (simp_all add: othersAgree_def)
    define dx where "dx = node_x (ms ! ti) - node_x (ms ! si)"
    define dy where "dy = node_y (ms ! ti) - node_y (ms ! si)"
    define fx where "fx = dx / springDist dx dy * ((springDist dx dy - kIdeal) * 0.03)"
    define fy where "fy = dy / springDist dx dy * ((springDist dx dy - kIdeal) * 0.03)"
    define s1 where "s1 = (if Some (node_id (ms ! si)) \<noteq> d
                         then ms[si := (ms ! si)\<lparr>node_vx := Some (orZero (node_vx (ms ! si)) + fx),
                                                 node_vy := Some (orZero (node_vy (ms ! si)) + fy)\<rparr>]
                         else ms)"
    define s1' where "s1' = ms'[si := (ms' ! si)\<lparr>node_vx := Some (orZero (node_vx (ms' ! si)) + fx),
                                                 node_vy := Some (orZero (node_vy (ms' ! si)) + fy)\<rparr>]"
    have r1: "list_all2 (othersAgree d) s1 s1'"
      unfolding s1_def s1'_def using assms lsi by (rule velocity_update_agree)
    have l1: "ti < length s1"
      using lti by (simp add: s1_def)
    have r2: "list_all2 (othersAgree d)
           (if Some (node_id (s1 ! ti)) \<noteq> d
            then s1[ti := (s1 ! ti)\<lparr>node_vx := Some (orZero (node_vx (s1 ! ti)) + - fx),
                                   node_vy := Some (orZero (node_vy (s1 ! ti)) + - fy)\<rparr>]
            else s1)
           (s1'[ti := (s1' ! ti)\<lparr>node_vx := Some (orZero (node_vx (s1' ! ti)) + - fx),
                                  node_vy := Some (orZero (node_vy (s1' ! ti)) + - fy)\<rparr>])"
      using r1 l1 by (rule velocity_update_agree)
    have a: "attractLink d link ms =
           (if Some (node_id (s1 ! ti)) \<noteq> d
            then s1[ti := (s1 ! ti)\<lparr>node_vx := Some (orZero (node_vx (s1 ! ti)) + - fx),
                                   node_vy := Some (orZero (node_vy (s1 ! ti)) + - fy)\<rparr>]
            else s1)"
      unfolding attractLink_def si Some option.case Let_def s1_def fx_def fy_def dx_def dy_def
      by simp
    have b: "attractLink None link ms' =
           s1'[ti := (s1' ! ti)\<lparr>node_vx := Some (orZero (node_vx (s1' ! ti)) + - fx),
                                  node_vy := Some (orZero (node_vy (s1' ! ti)) + - fy)\<rparr>]"
      unfolding attractLink_def si' ti' option.case Let_def s1'_def fx_def fy_def dx_def dy_def px
      by simp
    show ?thesis
      unfolding a b by (rule r2)
  qed
qed

lemma attraction_agree:
  assumes "list_all2 (othersAgree d) ms ms'"
  shows "list_all2 (othersAgree d) (attraction d ls ms) (attraction None ls ms')"
  unfolding attraction_def
  by (rule fold_rel [where Q = "list_all2 (othersAgree d)"]) (erule attractLink_agree, rule assms)

lemma forces_agree: "list_all2 (othersAgree d) (forces w h d ls ns) (forces w h None ls ns)"
  unfolding forces_def by (rule attraction_agree) (rule repulsion_agree)

lemma forces_others_same:
  assumes "q < length ns" "Some (node_id (ns ! q)) \<noteq> d"
  shows "forces w h d ls ns ! q = forces w h None ls ns ! q"
proof -
  have l: "q < length (forces w h d ls ns)"
    using assms(1) by (simp add: length_forces)
  have "othersAgree d (forces w h d ls ns ! q) (forces w h None ls ns ! q)"
    using forces_agree l by (rule list_all2_nthD)
  moreover have "node_id (forces w h d ls ns ! q) = node_id (ns ! q)"
    using list_all2_nthD [OF forces_sameIdentity assms(1), of w h d ls] by (simp add: sameIdentity_def)
  ultimately show ?thesis
    using assms(2) by (simp add: othersAgree_def)
qed

text \<open>
  Claim C1, as amended. After a tick with viewport width \<open>w\<close> and height \<open>h\<close>, a node that is
  not pinned (no pointer position is supplied, or the node is not the dragged one) has
  \<open>60 \<le> x \<le> max 60 (w - 60)\<close> and \<open>60 \<le> y \<le> max 60 (h - 60)\<close>, hence \<open>x \<le> w - 60\<close> when
  \<open>120 \<le> w\<close> and \<open>y \<le> h - 60\<close> when \<open>120 \<le> h\<close>. The dragged node with a supplied pointer
  position is at the pointer position, which is not clamped.
\<close>

theorem tick_positions_clamped:
  assumes "i < length ns"
  shows "(dragPos = Some p \<and> Some (node_id (ns ! i)) = d \<longrightarrow>
            node_x (simulate w h d dragPos ls ns ! i) = fst p \<and>
            node_y (simulate w h d dragPos ls ns ! i) = snd p)
       \<and> (dragPos = None \<or> Some (node_id (ns ! i)) \<noteq> d \<longrightarrow>
            60 \<le> node_x (simulate w h d dragPos ls ns ! i) \<and>
            60 \<le> node_y (simulate w h d dragPos ls ns ! i) \<and>
            node_x (simulate w h d dragPos ls ns ! i) \<le> max 60 (w - 60) \<and>
            node_y (simulate w h d dragPos ls ns ! i) \<le> max 60 (h - 60) \<and>
            (120 \<le> w \<longrightarrow> node_x (simulate w h d dragPos ls ns ! i) \<le> w - 60) \<and>
            (120 \<le> h \<longrightarrow> node_y (simulate w h d dragPos ls ns ! i) \<le> h - 60))"
proof -
  define m where "m = collision d (forces w h d ls ns) ! i"
  have out: "simulate w h d dragPos ls ns ! i = finishNode w h d dragPos m"
    unfolding m_def using assms by (rule simulate_nth)
  have mid: "node_id m = node_id (ns ! i)"
    unfolding m_def using assms by (rule phases_id)
  have pinned: "dragPos = Some p \<and> Some (node_id (ns ! i)) = d \<longrightarrow>
            node_x (finishNode w h d dragPos m) = fst p \<and> node_y (finishNode w h d dragPos m) = snd p"
    using mid by (auto simp: finishNode_pinned)
  have free: "dragPos = None \<or> Some (node_id (ns ! i)) \<noteq> d \<longrightarrow>
            finishNode w h d dragPos m = integrate w h m"
    using mid finishNode_integrate [of dragPos m d w h] by auto
  have b: "60 \<le> node_x (integrate w h m) \<and> node_x (integrate w h m) \<le> max 60 (w - 60) \<and>
           60 \<le> node_y (integrate w h m) \<and> node_y (integrate w h m) \<le> max 60 (h - 60)"
    using integrate_bounds [of w h m] by (simp add: boundaryMargin_def)
  have bw: "120 \<le> w \<longrightarrow> node_x (integrate w h m) \<le> w - 60"
    using b by auto
  have bh: "120 \<le> h \<longrightarrow> node_y (integrate w h m) \<le> h - 60"
    using b by auto
  show ?thesis
    unfolding out using pinned free b bw bh by auto
qed

theorem tick_positions_clamped_witness:
  "node_x (simulate 800 600 (Some ''Photosynthesis'') (Some (10, 20)) exAB [exA, exB] ! 0) = 10
   \<and> node_y (simulate 800 600 (Some ''Photosynthesis'') (Some (10, 20)) exAB [exA, exB] ! 0) = 20
   \<and> 60 \<le> node_x (simulate 800 600 (Some ''Photosynthesis'') (Some (10, 20)) exAB [exA, exB] ! 1)
   \<and> node_x (simulate 800 600 (Some ''Photosynthesis'') (Some (10, 20)) exAB [exA, exB] ! 1) \<le> 800 - 60
   \<and> 60 \<le> node_y (simulate 800 600 (Some ''Photosynthesis'') (Some (10, 20)) exAB [exA, exB] ! 1)
   \<and> node_y (simulate 800 600 (Some ''Photosynthesis'') (Some (10, 20)) exAB [exA, exB] ! 1) \<le> 600 - 60
   \<and> 60 \<le> node_x (simulate 800 600 (Some ''Photosynthesis'') None exAB [exA, exB] ! 0)
   \<and> node_x (simulate 800 600 (Some ''Photosynthesis'') None exAB [exA, exB] ! 0) \<le> 800 - 60"
proof -
  have l0: "0 < length [exA, exB]" and l1: "1 < length [exA, exB]"
    by simp_all
  note t0 = tick_positions_clamped [OF l0, of "Some (10, 20)" "(10, 20)" "Some ''Photosynthesis''" 800 600 exAB]
  note t1 = tick_positions_clamped [OF l1, of "Some (10, 20)" "(10, 20)" "Some ''Photosynthesis''" 800 600 exAB]
  note t2 = tick_positions_clamped [OF l0, of None "(10, 20)" "Some ''Photosynthesis''" 800 600 exAB]
  have h0: "Some (10, 20) = Some (10 :: real, 20 :: real) \<and> Some (node_id ([exA, exB] ! 0)) = Some ''Photosynthesis''"
    by (simp add: exA_def)
  have h1: "Some (node_id ([exA, exB] ! 1)) \<noteq> Some ''Photosynthesis''"
    by (simp add: exB_def)
  have w: "(120 :: real) \<le> 800" "(120 :: real) \<le> 600"
    by simp_all
  show ?thesis
    using t0 t1 t2 h0 h1 w by simp
qed

text \<open>
  The claim as stated fails in two ways: the dragged node follows a pointer at (10, 20) into
  the margin, and in a viewport of width 100 the clamp gives x = 60, beyond w - 60 = 40.
\<close>

theorem tick_positions_clamped_counterexample:
  "\<not> 60 \<le> node_x (simulate 800 600 (Some ''Photosynthesis'') (Some (10, 20)) [] [exA] ! 0)
   \<and> \<not> node_x (simulate 100 100 None None [] [exA] ! 0) \<le> 100 - 60"
proof -
  have l0: "0 < length [exA]"
    by simp
  have "node_id (collision (Some ''Photosynthesis'') (forces 800 600 (Some ''Photosynthesis'') [] [exA]) ! 0) =
        ''Photosynthesis''"
    using phases_id [OF l0, of "Some ''Photosynthesis''" 800 600 "[]"] by (simp add: exA_def)
  then have "node_x (simulate 800 600 (Some ''Photosynthesis'') (Some (10, 20)) [] [exA] ! 0) = 10"
    using simulate_nth [OF l0, of 800 600 "Some ''Photosynthesis''" "Some (10, 20)" "[]"]
    by (simp add: finishNode_pinned)
  moreover have "node_x (simulate 100 100 None None [] [exA] ! 0) = 60"
    using simulate_nth [OF l0, of 100 100 None None "[]"]
      integrate_x [of 100 100 "collision None (forces 100 100 None [] [exA]) ! 0"]
    by (simp add: finishNode_def boundaryMargin_def)
  ultimately show ?thesis by simp
qed



section \<open>Layout: collision resolution of a pair\<close>

lemma minSepY_74: "minSepY u v = 74"
  by (simp add: minSepY_def getNodeDimensions_def padding_def)

lemma minSepX_ge: "150 \<le> minSepX u v"
  by (simp add: minSepX_def getNodeDimensions_def padding_def)

lemma collisionPass_two:
  "collisionPass d [u, v] = [fst (collidePair d u v), snd (collidePair d u v)]"
  by (simp add: collisionPass_def pairStep_def case_prod_beta)

lemma collidePair_cases:
  "collidePair d u v =
     (if overlapping u v then
        (if minSepX u v - \<bar>node_x u - node_x v\<bar> < minSepY u v - \<bar>node_y u - node_y v\<bar> then
           (let s = (if node_x u - node_x v > 0 then 1 else - 1);
                push = (minSepX u v - \<bar>node_x u - node_x v\<bar>) / 2;
                u1 = (if Some (node_id u) \<noteq> d then u\<lparr>node_x := node_x u + s * push\<rparr> else u);
                v1 = (if Some (node_id v) \<noteq> d then v\<lparr>node_x := node_x v - s * push\<rparr> else v)
            in (u1\<lparr>node_vx := Some (orZero (node_vx u1) * 0.1)\<rparr>,
                v1\<lparr>node_vx := Some (orZero (node_vx v1) * 0.1)\<rparr>))
         else
           (let s = (if node_y u - node_y v > 0 then 1 else - 1);
                push = (minSepY u v - \<bar>node_y u - node_y v\<bar>) / 2;
                u1 = (if Some (node_id u) \<noteq> d then u\<lparr>node_y := node_y u + s * push\<rparr> else u);
                v1 = (if Some (node_id v) \<noteq> d then v\<lparr>node_y := node_y v - s * push\<rparr> else v)
            in (u1\<lparr>node_vy := Some (orZero (node_vy u1) * 0.1)\<rparr>,
                v1\<lparr>node_vy := Some (orZero (node_vy v1) * 0.1)\<rparr>)))
      else (u, v))"
  unfolding collidePair_def overlapping_def minSepX_def minSepY_def Let_def by (rule refl)

lemma push_apart:
  fixes a b m :: real
  assumes "\<bar>a - b\<bar> < m"
  shows "\<bar>(a + (if a - b > 0 then 1 else - 1) * ((m - \<bar>a - b\<bar>) / 2)) -
          (b - (if a - b > 0 then 1 else - 1) * ((m - \<bar>a - b\<bar>) / 2))\<bar> = m"
proof (cases "a - b > 0")
  case True
  then have "(a + 1 * ((m - \<bar>a - b\<bar>) / 2)) - (b - 1 * ((m - \<bar>a - b\<bar>) / 2)) = m"
    by (simp add: field_simps)
  moreover have "0 < m"
    using assms by linarith
  ultimately show ?thesis
    using True by simp
next
  case False
  then have "(a + - 1 * ((m - \<bar>a - b\<bar>) / 2)) - (b - - 1 * ((m - \<bar>a - b\<bar>) / 2)) = - m"
    by (simp add: field_simps)
  moreover have "0 < m"
    using assms by linarith
  ultimately show ?thesis
    using False by simp
qed

lemma collidePair_idle: "\<not> overlapping u v \<Longrightarrow> collidePair d u v = (u, v)"
  by (simp add: collidePair_cases)

lemma collidePair_pushX:
  assumes "Some (node_id u) \<noteq> d" "Some (node_id v) \<noteq> d" "overlapping u v"
      and "minSepX u v - \<bar>node_x u - node_x v\<bar> < minSepY u v - \<bar>node_y u - node_y v\<bar>"
  shows "\<bar>node_x (fst (collidePair d u v)) - node_x (snd (collidePair d u v))\<bar> = minSepX u v"
    and "node_y (fst (collidePair d u v)) = node_y u" "node_y (snd (collidePair d u v)) = node_y v"
    and "node_label (fst (collidePair d u v)) = node_label u"
    and "node_label (snd (collidePair d u v)) = node_label v"
    and "node_id (fst (collidePair d u v)) = node_id u"
    and "node_id (snd (collidePair d u v)) = node_id v"
proof -
  have p: "\<bar>node_x u - node_x v\<bar> < minSepX u v"
    using assms(3) by (simp add: overlapping_def)
  show "\<bar>node_x (fst (collidePair d u v)) - node_x (snd (collidePair d u v))\<bar> = minSepX u v"
    using assms push_apart [OF p] by (simp add: collidePair_cases Let_def)
  show "node_y (fst (collidePair d u v)) = node_y u" "node_y (snd (collidePair d u v)) = node_y v"
    "node_label (fst (collidePair d u v)) = node_label u"
    "node_label (snd (collidePair d u v)) = node_label v"
    "node_id (fst (collidePair d u v)) = node_id u"
    "node_id (snd (collidePair d u v)) = node_id v"
    using assms by (simp_all add: collidePair_cases Let_def)
qed

lemma collidePair_pushY:
  assumes "Some (node_id u) \<noteq> d" "Some (node_id v) \<noteq> d" "overlapping u v"
      and "\<not> minSepX u v - \<bar>node_x u - node_x v\<bar> < minSepY u v - \<bar>node_y u - node_y v\<bar>"
  shows "\<bar>node_y (fst (collidePair d u v)) - node_y (snd (collidePair d u v))\<bar> = minSepY u v"
    and "node_x (fst (collidePair d u v)) = node_x u" "node_x (snd (collidePair d u v)) = node_x v"
    and "node_label (fst (collidePair d u v)) = node_label u"
    and "node_label (snd (collidePair d u v)) = node_label v"
    and "node_id (fst (collidePair d u v)) = node_id u"
    and "node_id (snd (collidePair d u v)) = node_id v"
proof -
  have p: "\<bar>node_y u - node_y v\<bar> < minSepY u v"
    using assms(3) by (simp add: overlapping_def)
  show "\<bar>node_y (fst (collidePair d u v)) - node_y (snd (collidePair d u v))\<bar> = minSepY u v"
    using assms push_apart [OF p] by (simp add: collidePair_cases Let_def)
  show "node_x (fst (collidePair d u v)) = node_x u" "node_x (snd (collidePair d u v)) = node_x v"
    "node_label (fst (collidePair d u v)) = node_label u"
    "node_label (snd (collidePair d u v)) = node_label v"
    "node_id (fst (collidePair d u v)) = node_id u"
    "node_id (snd (collidePair d u v)) = node_id v"
    using assms by (simp_all add: collidePair_cases Let_def)
qed

lemma minSep_label_cong:
  "node_label u' = node_label u \<Longrightarrow> node_label v' = node_label v \<Longrightarrow>
   minSepX u' v' = minSepX u v \<and> minSepY u' v' = minSepY u v"
  by (simp add: minSepX_def minSepY_def)

lemma collidePair_separates:
  assumes "Some (node_id u) \<noteq> d" "Some (node_id v) \<noteq> d"
  shows "\<not> overlapping (fst (collidePair d u v)) (snd (collidePair d u v))"
proof (cases "overlapping u v")
  case False
  then show ?thesis by (simp add: collidePair_idle)
next
  case True
  show ?thesis
  proof (cases "minSepX u v - \<bar>node_x u - node_x v\<bar> < minSepY u v - \<bar>node_y u - node_y v\<bar>")
    case True
    note px = collidePair_pushX [OF assms \<open>overlapping u v\<close> True]
    have "minSepX (fst (collidePair d u v)) (snd (collidePair d u v)) = minSepX u v"
      using minSep_label_cong [OF px(4) px(5)] by simp
    then show ?thesis
      using px(1) by (simp add: overlapping_def)
  next
    case False
    note py = collidePair_pushY [OF assms \<open>overlapping u v\<close> False]
    have "minSepY (fst (collidePair d u v)) (snd (collidePair d u v)) = minSepY u v"
      using minSep_label_cong [OF py(4) py(5)] by simp
    then show ?thesis
      using py(1) by (simp add: overlapping_def)
  qed
qed

lemma collision_two:
  assumes "Some (node_id u) \<noteq> d" "Some (node_id v) \<noteq> d"
  shows "collision d [u, v] = [fst (collidePair d u v), snd (collidePair d u v)]"
proof -
  define u1 where "u1 = fst (collidePair d u v)"
  define v1 where "v1 = snd (collidePair d u v)"
  have sep: "\<not> overlapping u1 v1"
    unfolding u1_def v1_def using assms by (rule collidePair_separates)
  have idle: "collidePair d u1 v1 = (u1, v1)"
    using sep by (rule collidePair_idle)
  have 1: "collisionPass d [u, v] = [u1, v1]"
    by (simp add: collisionPass_two u1_def v1_def)
  have 2: "collisionPass d [u1, v1] = [u1, v1]"
    by (simp add: collisionPass_two idle)
  show ?thesis
    unfolding collision_def 1 2 u1_def [symmetric] v1_def [symmetric] ..
qed

lemma width_not_150: "fst (getNodeDimensions lbl) \<noteq> 150"
proof
  assume a: "fst (getNodeDimensions lbl) = 150"
  then have "real (length lbl) * 9 + 30 = 150"
    by (simp add: getNodeDimensions_def max_def split: if_splits)
  then have "real (length lbl * 9) = real 120"
    by simp
  then have "length lbl * 9 = 120"
    by (simp only: of_nat_eq_iff)
  then show False by presburger
qed

lemma exAB_collision:
  "collision None [exA, exB] = [exA\<lparr>node_y := 63\<rparr>, exB\<lparr>node_y := 137\<rparr>]"
proof -
  have "collidePair None exA exB = (exA\<lparr>node_y := 63\<rparr>, exB\<lparr>node_y := 137\<rparr>)"
    by (simp add: collidePair_def exA_def exB_def getNodeDimensions_def padding_def orZero_def Let_def)
  then show ?thesis
    by (simp add: collision_two exA_def exB_def)
qed

text \<open>
  With a third node in the layout the phase can end with two nodes overlapping that did not
  overlap before it: three nodes in a row at x = 100, 300 and 0, the first one pushed towards
  the second by the third in every pass.
\<close>

lemma collisionPass_three:
  "collisionPass d [a, b, c] =
     [fst (collidePair d (fst (collidePair d a b)) c),
      fst (collidePair d (snd (collidePair d a b)) (snd (collidePair d (fst (collidePair d a b)) c))),
      snd (collidePair d (snd (collidePair d a b)) (snd (collidePair d (fst (collidePair d a b)) c)))]"
  by (simp add: collisionPass_def pairStep_def case_prod_beta)

lemma ex_three_pair:
  "112 < \<bar>x - y\<bar> \<Longrightarrow>
   collidePair None (exA\<lparr>node_x := x\<rparr>) (exB\<lparr>node_x := y\<rparr>) =
     (if \<bar>x - y\<bar> < 186
      then (exA\<lparr>node_x := x + (if x - y > 0 then 1 else - 1) * ((186 - \<bar>x - y\<bar>) / 2)\<rparr>,
            exB\<lparr>node_x := y - (if x - y > 0 then 1 else - 1) * ((186 - \<bar>x - y\<bar>) / 2)\<rparr>)
      else (exA\<lparr>node_x := x\<rparr>, exB\<lparr>node_x := y\<rparr>))"
  "94 < \<bar>x - z\<bar> \<Longrightarrow>
   collidePair None (exA\<lparr>node_x := x\<rparr>) (exC\<lparr>node_x := z\<rparr>) =
     (if \<bar>x - z\<bar> < 168
      then (exA\<lparr>node_x := x + (if x - z > 0 then 1 else - 1) * ((168 - \<bar>x - z\<bar>) / 2)\<rparr>,
            exC\<lparr>node_x := z - (if x - z > 0 then 1 else - 1) * ((168 - \<bar>x - z\<bar>) / 2)\<rparr>)
      else (exA\<lparr>node_x := x\<rparr>, exC\<lparr>node_x := z\<rparr>))"
  "94 < \<bar>y - z\<bar> \<Longrightarrow>
   collidePair None (exB\<lparr>node_x := y\<rparr>) (exC\<lparr>node_x := z\<rparr>) =
     (if \<bar>y - z\<bar> < 168
      then (exB\<lparr>node_x := y + (if y - z > 0 then 1 else - 1) * ((168 - \<bar>y - z\<bar>) / 2)\<rparr>,
            exC\<lparr>node_x := z - (if y - z > 0 then 1 else - 1) * ((168 - \<bar>y - z\<bar>) / 2)\<rparr>)
      else (exB\<lparr>node_x := y\<rparr>, exC\<lparr>node_x := z\<rparr>))"
  by (simp_all add: collidePair_def Let_def getNodeDimensions_def padding_def orZero_def
      exA_def exB_def exC_def)

lemma ex_three_collision:
  "collision None [exA\<lparr>node_x := 100\<rparr>, exB\<lparr>node_x := 300\<rparr>, exC\<lparr>node_x := 0\<rparr>] =
     [exA\<lparr>node_x := 127.75\<rparr>, exB\<lparr>node_x := 312.5\<rparr>, exC\<lparr>node_x := - 40.25\<rparr>]"
proof -
  have 1: "collisionPass None [exA\<lparr>node_x := 100\<rparr>, exB\<lparr>node_x := 300\<rparr>, exC\<lparr>node_x := 0\<rparr>] =
           [exA\<lparr>node_x := 134\<rparr>, exB\<lparr>node_x := 300\<rparr>, exC\<lparr>node_x := - 34\<rparr>]"
    by (simp add: collisionPass_three ex_three_pair)
  have 2: "collisionPass None [exA\<lparr>node_x := 134\<rparr>, exB\<lparr>node_x := 300\<rparr>, exC\<lparr>node_x := - 34\<rparr>] =
           [exA\<lparr>node_x := 129\<rparr>, exB\<lparr>node_x := 310\<rparr>, exC\<lparr>node_x := - 39\<rparr>]"
    by (simp add: collisionPass_three ex_three_pair)
  have 3: "collisionPass None [exA\<lparr>node_x := 129\<rparr>, exB\<lparr>node_x := 310\<rparr>, exC\<lparr>node_x := - 39\<rparr>] =
           [exA\<lparr>node_x := 127.75\<rparr>, exB\<lparr>node_x := 312.5\<rparr>, exC\<lparr>node_x := - 40.25\<rparr>]"
    by (simp add: collisionPass_three ex_three_pair)
  show ?thesis
    unfolding collision_def 1 2 3 ..
qed

lemma collision_third_node:
  "\<not> overlapping exA (exB\<lparr>node_x := 300\<rparr>)
   \<and> overlapping (collision None [exA, exB\<lparr>node_x := 300\<rparr>, exC] ! 0)
                 (collision None [exA, exB\<lparr>node_x := 300\<rparr>, exC] ! 1)"
proof -
  have e: "exA = exA\<lparr>node_x := 100\<rparr>" "exC = exC\<lparr>node_x := 0\<rparr>"
    by (simp_all add: exA_def exC_def)
  have c: "collision None [exA, exB\<lparr>node_x := 300\<rparr>, exC] =
           [exA\<lparr>node_x := 127.75\<rparr>, exB\<lparr>node_x := 312.5\<rparr>, exC\<lparr>node_x := - 40.25\<rparr>]"
    using ex_three_collision unfolding e [symmetric] .
  show ?thesis
    unfolding c
    by (simp add: overlapping_def minSepX_def minSepY_def getNodeDimensions_def padding_def
        exA_def exB_def)
qed

text \<open>
  Claim C2, as amended. In a layout that consists of exactly two nodes, neither of them
  dragged, the collision phase of one tick (three passes) leaves the padded footprints apart
  on one axis: \<open>\<bar>dx\<bar> \<ge> (wU + wV) / 2 + 30\<close> or \<open>\<bar>dy\<bar> \<ge> 74\<close> (22 + 22 + 30). If the two do not
  overlap the layout is left alone. If they overlap they are pushed apart along the axis of
  the smaller overlap only: to \<open>\<bar>dx\<bar> = (wU + wV) / 2 + 30\<close> with both y unchanged if the
  overlap in x is the smaller one, else to \<open>\<bar>dy\<bar> = 74\<close> with both x unchanged. The second
  case applies whenever \<open>\<bar>dx\<bar> \<le> 76\<close>, so centers that start 50 apart end 74 apart
  vertically, with their horizontal offset as it was.
\<close>

theorem collision_pair_separated:
  assumes "Some (node_id u) \<noteq> d" "Some (node_id v) \<noteq> d"
  shows "length (collision d [u, v]) = 2
       \<and> \<not> overlapping (collision d [u, v] ! 0) (collision d [u, v] ! 1)
       \<and> (\<not> overlapping u v \<longrightarrow> collision d [u, v] = [u, v])
       \<and> (overlapping u v \<and>
            minSepX u v - \<bar>node_x u - node_x v\<bar> < minSepY u v - \<bar>node_y u - node_y v\<bar> \<longrightarrow>
            \<bar>node_x (collision d [u, v] ! 0) - node_x (collision d [u, v] ! 1)\<bar> = minSepX u v \<and>
            node_y (collision d [u, v] ! 0) = node_y u \<and> node_y (collision d [u, v] ! 1) = node_y v)
       \<and> (overlapping u v \<and>
            \<not> minSepX u v - \<bar>node_x u - node_x v\<bar> < minSepY u v - \<bar>node_y u - node_y v\<bar> \<longrightarrow>
            \<bar>node_y (collision d [u, v] ! 0) - node_y (collision d [u, v] ! 1)\<bar> = 74 \<and>
            node_x (collision d [u, v] ! 0) = node_x u \<and> node_x (collision d [u, v] ! 1) = node_x v)
       \<and> (\<bar>node_x u - node_x v\<bar> \<le> 76 \<and> \<bar>node_y u - node_y v\<bar> < 74 \<longrightarrow>
            \<bar>node_y (collision d [u, v] ! 0) - node_y (collision d [u, v] ! 1)\<bar> = 74 \<and>
            node_x (collision d [u, v] ! 0) = node_x u \<and> node_x (collision d [u, v] ! 1) = node_x v)"
proof -
  note c = collision_two [OF assms]
  have 1: "length (collision d [u, v]) = 2"
    by (simp add: c)
  have 2: "\<not> overlapping (collision d [u, v] ! 0) (collision d [u, v] ! 1)"
    using collidePair_separates [OF assms] by (simp add: c)
  have 3: "\<not> overlapping u v \<longrightarrow> collision d [u, v] = [u, v]"
    by (simp add: c collidePair_idle)
  have 4: "overlapping u v \<and>
            minSepX u v - \<bar>node_x u - node_x v\<bar> < minSepY u v - \<bar>node_y u - node_y v\<bar> \<longrightarrow>
            \<bar>node_x (collision d [u, v] ! 0) - node_x (collision d [u, v] ! 1)\<bar> = minSepX u v \<and>
            node_y (collision d [u, v] ! 0) = node_y u \<and> node_y (collision d [u, v] ! 1) = node_y v"
    using collidePair_pushX [OF assms] by (simp add: c)
  have 5: "overlapping u v \<and>
            \<not> minSepX u v - \<bar>node_x u - node_x v\<bar> < minSepY u v - \<bar>node_y u - node_y v\<bar> \<longrightarrow>
            \<bar>node_y (collision d [u, v] ! 0) - node_y (collision d [u, v] ! 1)\<bar> = 74 \<and>
            node_x (collision d [u, v] ! 0) = node_x u \<and> node_x (collision d [u, v] ! 1) = node_x v"
    using collidePair_pushY [OF assms] by (simp add: c minSepY_74)
  have 6: "\<bar>node_x u - node_x v\<bar> \<le> 76 \<and> \<bar>node_y u - node_y v\<bar> < 74 \<longrightarrow>
            overlapping u v \<and>
            \<not> minSepX u v - \<bar>node_x u - node_x v\<bar> < minSepY u v - \<bar>node_y u - node_y v\<bar>"
    using minSepX_ge [of u v] by (auto simp: overlapping_def minSepY_74)
  show ?thesis
    using 1 2 3 4 5 6 by blast
qed

text \<open>
  The claim as stated asks for a separation of at least 180. Two nodes with labels of 14
  characters (width 156, half-widths and padding 186) whose centers start 50 apart at the
  same height end at (100, 63) and (150, 137): 50 apart in x, 74 in y, less than 180 in
  distance. No label has width 150 (\<open>width_not_150\<close>).
\<close>

theorem collision_pair_separated_counterexample:
  "fst (getNodeDimensions (node_label exA)) = 156
   \<and> fst (getNodeDimensions (node_label exB)) = 156
   \<and> centerDist exA exB = 50
   \<and> collision None [exA, exB] = [exA\<lparr>node_y := 63\<rparr>, exB\<lparr>node_y := 137\<rparr>]
   \<and> \<not> 180 \<le> \<bar>node_x (collision None [exA, exB] ! 0) - node_x (collision None [exA, exB] ! 1)\<bar>
   \<and> \<not> 180 \<le> \<bar>node_y (collision None [exA, exB] ! 0) - node_y (collision None [exA, exB] ! 1)\<bar>
   \<and> \<not> 180 \<le> centerDist (collision None [exA, exB] ! 0) (collision None [exA, exB] ! 1)"
proof -
  have w: "fst (getNodeDimensions (node_label exA)) = 156" "fst (getNodeDimensions (node_label exB)) = 156"
    by (simp_all add: getNodeDimensions_def exA_def exB_def)
  have "centerDist exA exB = sqrt (50 * 50)"
    by (simp add: centerDist_def exA_def exB_def)
  then have d0: "centerDist exA exB = 50"
    using real_sqrt_mult_self [of 50] by simp
  have "centerDist (exA\<lparr>node_y := 63\<rparr>) (exB\<lparr>node_y := 137\<rparr>) = sqrt 7976"
    by (simp add: centerDist_def exA_def exB_def)
  moreover have "sqrt 7976 < sqrt (180 * 180)"
    by (subst real_sqrt_less_iff) simp
  moreover have "sqrt (180 * 180) = (180 :: real)"
    using real_sqrt_mult_self [of 180] by simp
  ultimately have d1: "centerDist (exA\<lparr>node_y := 63\<rparr>) (exB\<lparr>node_y := 137\<rparr>) < 180"
    by simp
  have xs: "node_x exA = 100" "node_x exB = 150"
    by (simp_all add: exA_def exB_def)
  show ?thesis
    using w d0 d1 xs by (simp add: exAB_collision)
qed

theorem collision_pair_separated_witness:
  "Some (node_id exA) \<noteq> None \<and> Some (node_id exB) \<noteq> None
   \<and> overlapping exA exB
   \<and> \<bar>node_x exA - node_x exB\<bar> \<le> 76 \<and> \<bar>node_y exA - node_y exB\<bar> < 74
   \<and> \<not> overlapping (collision None [exA, exB] ! 0) (collision None [exA, exB] ! 1)
   \<and> \<bar>node_y (collision None [exA, exB] ! 0) - node_y (collision None [exA, exB] ! 1)\<bar> = 74
   \<and> node_x (collision None [exA, exB] ! 0) = 100 \<and> node_x (collision None [exA, exB] ! 1) = 150
   \<and> overlapping (exA\<lparr>node_y := 80\<rparr>) (exB\<lparr>node_x := 270\<rparr>)
   \<and> \<bar>node_x (collision None [exA\<lparr>node_y := 80\<rparr>, exB\<lparr>node_x := 270\<rparr>] ! 0) -
       node_x (collision None [exA\<lparr>node_y := 80\<rparr>, exB\<lparr>node_x := 270\<rparr>] ! 1)\<bar> = 186
   \<and> \<not> overlapping (exA\<lparr>node_y := 400\<rparr>) exB
   \<and> collision None [exA\<lparr>node_y := 400\<rparr>, exB] = [exA\<lparr>node_y := 400\<rparr>, exB]"
proof -
  have a: "Some (node_id exA) \<noteq> None" "Some (node_id exB) \<noteq> None"
    by simp_all
  have a': "Some (node_id (exA\<lparr>node_y := 80\<rparr>)) \<noteq> None" "Some (node_id (exB\<lparr>node_x := 270\<rparr>)) \<noteq> None"
           "Some (node_id (exA\<lparr>node_y := 400\<rparr>)) \<noteq> None"
    by simp_all
  note t1 = collision_pair_separated [OF a]
  note t2 = collision_pair_separated [OF a'(1) a'(2)]
  note t3 = collision_pair_separated [OF a'(3) a(2)]
  have sx: "minSepX exA exB = 186" "minSepX (exA\<lparr>node_y := 80\<rparr>) (exB\<lparr>node_x := 270\<rparr>) = 186"
           "minSepX (exA\<lparr>node_y := 400\<rparr>) exB = 186"
    by (simp_all add: minSepX_def getNodeDimensions_def padding_def exA_def exB_def)
  have xs: "node_x exA = 100" "node_x exB = 150" "node_y exA = 100" "node_y exB = 100"
    by (simp_all add: exA_def exB_def)
  have o1: "overlapping exA exB"
    by (simp add: overlapping_def sx minSepY_74 xs)
  have h1: "\<bar>node_x exA - node_x exB\<bar> \<le> 76 \<and> \<bar>node_y exA - node_y exB\<bar> < 74"
    by (simp add: xs)
  have o2: "overlapping (exA\<lparr>node_y := 80\<rparr>) (exB\<lparr>node_x := 270\<rparr>) \<and>
            minSepX (exA\<lparr>node_y := 80\<rparr>) (exB\<lparr>node_x := 270\<rparr>)
              - \<bar>node_x (exA\<lparr>node_y := 80\<rparr>) - node_x (exB\<lparr>node_x := 270\<rparr>)\<bar>
            < minSepY (exA\<lparr>node_y := 80\<rparr>) (exB\<lparr>node_x := 270\<rparr>)
              - \<bar>node_y (exA\<lparr>node_y := 80\<rparr>) - node_y (exB\<lparr>node_x := 270\<rparr>)\<bar>"
    by (simp add: overlapping_def sx minSepY_74 xs)
  have o3: "\<not> overlapping (exA\<lparr>node_y := 400\<rparr>) exB"
    by (simp add: overlapping_def sx minSepY_74 xs)
  have c1: "\<not> overlapping (collision None [exA, exB] ! 0) (collision None [exA, exB] ! 1)
            \<and> \<bar>node_y (collision None [exA, exB] ! 0) - node_y (collision None [exA, exB] ! 1)\<bar> = 74
            \<and> node_x (collision None [exA, exB] ! 0) = 100 \<and> node_x (collision None [exA, exB] ! 1) = 150"
    using t1 h1 xs by simp
  have c2: "\<bar>node_x (collision None [exA\<lparr>node_y := 80\<rparr>, exB\<lparr>node_x := 270\<rparr>] ! 0) -
       node_x (collision None [exA\<lparr>node_y := 80\<rparr>, exB\<lparr>node_x := 270\<rparr>] ! 1)\<bar> = 186"
    using t2 o2 sx(2) by simp
  have c3: "collision None [exA\<lparr>node_y := 400\<rparr>, exB] = [exA\<lparr>node_y := 400\<rparr>, exB]"
    using t3 o3 by blast
  show ?thesis
    using a o1 h1 c1 o2 c2 o3 c3 by blast
qed

section \<open>Layout: seeding new nodes\<close>

lemma spawnPosition_ring:
  assumes "find (mentions n) ls = Some cl"
      and "find (\<lambda>p. node_label p = peerLabelOf n cl) next = Some peer"
  shows "spawnPosition next ls w h rnd c n =
           ((node_x peer + cos (rnd c * pi * 2) * 80, node_y peer + sin (rnd c * pi * 2) * 80), c + 1)"
  using assms unfolding mentions_def peerLabelOf_def
  by (simp add: spawnPosition_def Let_def)

lemma spawnPosition_jitter:
  assumes "find (mentions n) ls = None"
  shows "spawnPosition next ls w h rnd c n =
           ((w / 2 + (rnd c - 0.5) * 100, h / 2 + (rnd (c + 1) - 0.5) * 100), c + 2)"
  using assms unfolding mentions_def
  by (simp add: spawnPosition_def)

lemma seedNode_new:
  assumes "findIndex (\<lambda>en. node_id en = node_id n) next = None"
  shows "seedNode ls w h rnd (next, c) n =
           (next @ [n\<lparr>node_x := fst (fst (spawnPosition next ls w h rnd c n)),
                      node_y := snd (fst (spawnPosition next ls w h rnd c n)),
                      node_vx := Some 0, node_vy := Some 0\<rparr>],
            snd (spawnPosition next ls w h rnd c n))"
  using assms by (simp add: seedNode_def case_prod_beta)

lemma ring_distance:
  "centerDist (n\<lparr>node_x := node_x peer + cos a * 80, node_y := node_y peer + sin a * 80,
                 node_vx := p, node_vy := q\<rparr>) peer = 80"
proof -
  have e: "cos a * cos a + sin a * sin a = 1"
    using sin_cos_squared_add3 [of a] by (simp add: add.commute)
  have "cos a * 80 * (cos a * 80) + sin a * 80 * (sin a * 80) =
        80 * 80 * (cos a * cos a) + 80 * 80 * (sin a * sin a)"
    by (simp only: mult.assoc mult.left_commute mult.commute)
  also have "\<dots> = 80 * 80 * (cos a * cos a + sin a * sin a)"
    by (simp only: distrib_left)
  also have "\<dots> = 80 * 80"
    by (simp only: e mult_1_right)
  finally have "centerDist (n\<lparr>node_x := node_x peer + cos a * 80, node_y := node_y peer + sin a * 80,
                 node_vx := p, node_vy := q\<rparr>) peer = sqrt (80 * 80)"
    by (simp add: centerDist_def)
  then show ?thesis
    using real_sqrt_mult_self [of 80] by simp
qed

lemma jitter_bound:
  fixes r :: real
  assumes "0 \<le> r" "r < 1"
  shows "\<bar>(c + (r - 0.5) * 100) - c\<bar> \<le> 50"
  using assms by (simp add: abs_le_iff)

text \<open>
  Claim C6, as amended. When the layout seeds a node that is not yet in its array: if the
  first link, in list order, that mentions the node's label has at its other end the label of
  a node already in the array, the node is placed at the angle \<open>2 * pi * r\<close> on the circle of
  radius 80 around that node's current position, \<open>r\<close> being the next random draw; if no link
  mentions the label, it is placed at the viewport centre plus \<open>(r - 0.5) * 100\<close> on each axis,
  from two separate draws, which is within 50 of the centre for draws in [0, 1). In both
  cases its velocity is zero.
\<close>

theorem seed_spawn_position:
  assumes "findIndex (\<lambda>en. node_id en = node_id n) next = None"
  shows "(find (mentions n) ls = Some cl \<and>
          find (\<lambda>p. node_label p = peerLabelOf n cl) next = Some peer \<longrightarrow>
            seedNode ls w h rnd (next, c) n =
              (next @ [n\<lparr>node_x := node_x peer + cos (rnd c * pi * 2) * 80,
                         node_y := node_y peer + sin (rnd c * pi * 2) * 80,
                         node_vx := Some 0, node_vy := Some 0\<rparr>], c + 1) \<and>
            centerDist (last (fst (seedNode ls w h rnd (next, c) n))) peer = 80)
       \<and> (find (mentions n) ls = None \<longrightarrow>
            seedNode ls w h rnd (next, c) n =
              (next @ [n\<lparr>node_x := w / 2 + (rnd c - 0.5) * 100,
                         node_y := h / 2 + (rnd (c + 1) - 0.5) * 100,
                         node_vx := Some 0, node_vy := Some 0\<rparr>], c + 2) \<and>
            (0 \<le> rnd c \<and> rnd c < 1 \<longrightarrow>
               \<bar>node_x (last (fst (seedNode ls w h rnd (next, c) n))) - w / 2\<bar> \<le> 50) \<and>
            (0 \<le> rnd (c + 1) \<and> rnd (c + 1) < 1 \<longrightarrow>
               \<bar>node_y (last (fst (seedNode ls w h rnd (next, c) n))) - h / 2\<bar> \<le> 50))"
proof -
  have ring: "seedNode ls w h rnd (next, c) n =
              (next @ [n\<lparr>node_x := node_x peer + cos (rnd c * pi * 2) * 80,
                         node_y := node_y peer + sin (rnd c * pi * 2) * 80,
                         node_vx := Some 0, node_vy := Some 0\<rparr>], c + 1) \<and>
            centerDist (last (fst (seedNode ls w h rnd (next, c) n))) peer = 80"
    if a: "find (mentions n) ls = Some cl"
      and b: "find (\<lambda>p. node_label p = peerLabelOf n cl) next = Some peer"
  proof -
    have s: "seedNode ls w h rnd (next, c) n =
              (next @ [n\<lparr>node_x := node_x peer + cos (rnd c * pi * 2) * 80,
                         node_y := node_y peer + sin (rnd c * pi * 2) * 80,
                         node_vx := Some 0, node_vy := Some 0\<rparr>], c + 1)"
      by (simp add: seedNode_new [OF assms] spawnPosition_ring [OF a b])
    show ?thesis
      unfolding s by (simp add: ring_distance)
  qed
  have jit: "seedNode ls w h rnd (next, c) n =
              (next @ [n\<lparr>node_x := w / 2 + (rnd c - 0.5) * 100,
                         node_y := h / 2 + (rnd (c + 1) - 0.5) * 100,
                         node_vx := Some 0, node_vy := Some 0\<rparr>], c + 2) \<and>
            (0 \<le> rnd c \<and> rnd c < 1 \<longrightarrow>
               \<bar>node_x (last (fst (seedNode ls w h rnd (next, c) n))) - w / 2\<bar> \<le> 50) \<and>
            (0 \<le> rnd (c + 1) \<and> rnd (c + 1) < 1 \<longrightarrow>
               \<bar>node_y (last (fst (seedNode ls w h rnd (next, c) n))) - h / 2\<bar> \<le> 50)"
    if a: "find (mentions n) ls = None"
  proof -
    have s: "seedNode ls w h rnd (next, c) n =
              (next @ [n\<lparr>node_x := w / 2 + (rnd c - 0.5) * 100,
                         node_y := h / 2 + (rnd (c + 1) - 0.5) * 100,
                         node_vx := Some 0, node_vy := Some 0\<rparr>], c + 2)"
      by (simp add: seedNode_new [OF assms] spawnPosition_jitter [OF a])
    show ?thesis
      unfolding s using jitter_bound [of "rnd c" "w / 2"] jitter_bound [of "rnd (c + 1)" "h / 2"]
      by simp
  qed
  show ?thesis
    using ring jit by blast
qed

theorem seed_spawn_position_witness:
  "findIndex (\<lambda>en. node_id en = node_id (exNode ''Photosynthesis'')) [exB] = None
   \<and> find (mentions (exNode ''Photosynthesis'')) exAB = Some (exLink ''Photosynthesis'' ''Carbon dioxide'' (Some ''uses''))
   \<and> find (\<lambda>p. node_label p = peerLabelOf (exNode ''Photosynthesis'')
                                   (exLink ''Photosynthesis'' ''Carbon dioxide'' (Some ''uses''))) [exB] = Some exB
   \<and> seedNode exAB 800 600 exRnd ([exB], 0) (exNode ''Photosynthesis'') =
       ([exB, (exNode ''Photosynthesis'')\<lparr>node_x := 150, node_y := 180,
                                          node_vx := Some 0, node_vy := Some 0\<rparr>], 1)
   \<and> centerDist (last (fst (seedNode exAB 800 600 exRnd ([exB], 0) (exNode ''Photosynthesis'')))) exB = 80
   \<and> find (mentions (exNode ''Photosynthesis'')) [] = None
   \<and> seedNode [] 800 600 exRnd ([exB], 0) (exNode ''Photosynthesis'') =
       ([exB, (exNode ''Photosynthesis'')\<lparr>node_x := 375, node_y := 275,
                                          node_vx := Some 0, node_vy := Some 0\<rparr>], 2)
   \<and> \<bar>node_x (last (fst (seedNode [] 800 600 exRnd ([exB], 0) (exNode ''Photosynthesis'')))) - 800 / 2\<bar> \<le> 50
   \<and> \<bar>node_y (last (fst (seedNode [] 800 600 exRnd ([exB], 0) (exNode ''Photosynthesis'')))) - 600 / 2\<bar> \<le> 50"
proof -
  have h0: "findIndex (\<lambda>en. node_id en = node_id (exNode ''Photosynthesis'')) [exB] = None"
    by (simp add: exNode_def exB_def)
  have h1: "find (mentions (exNode ''Photosynthesis'')) exAB =
              Some (exLink ''Photosynthesis'' ''Carbon dioxide'' (Some ''uses''))"
    by (simp add: mentions_def exNode_def exAB_def exLink_def)
  have h2: "find (\<lambda>p. node_label p = peerLabelOf (exNode ''Photosynthesis'')
                                   (exLink ''Photosynthesis'' ''Carbon dioxide'' (Some ''uses''))) [exB] = Some exB"
    by (simp add: peerLabelOf_def exNode_def exLink_def exB_def)
  have h3: "find (mentions (exNode ''Photosynthesis'')) [] = None"
    by simp
  have r: "0 \<le> exRnd 0 \<and> exRnd 0 < 1" "0 \<le> exRnd (0 + 1) \<and> exRnd (0 + 1) < 1"
    by (simp_all add: exRnd_def)
  note t1 = seed_spawn_position [OF h0, of exAB "exLink ''Photosynthesis'' ''Carbon dioxide'' (Some ''uses'')"
      exB 800 600 exRnd 0]
  note t2 = seed_spawn_position [OF h0, of "[]" "exLink ''Photosynthesis'' ''Carbon dioxide'' (Some ''uses'')"
      exB 800 600 exRnd 0]
  have v: "node_x exB + cos (exRnd 0 * pi * 2) * 80 = 150" "node_y exB + sin (exRnd 0 * pi * 2) * 80 = 180"
          "800 / 2 + (exRnd 0 - 0.5) * 100 = (375 :: real)" "600 / 2 + (exRnd (0 + 1) - 0.5) * 100 = (275 :: real)"
    by (simp_all add: exRnd_def exB_def)
  note r1 = t1 [THEN conjunct1, THEN mp, OF conjI [OF h1 h2]]
  note r2 = t2 [THEN conjunct2, THEN mp, OF h3]
  have c1: "seedNode exAB 800 600 exRnd ([exB], 0) (exNode ''Photosynthesis'') =
       ([exB, (exNode ''Photosynthesis'')\<lparr>node_x := 150, node_y := 180,
                                          node_vx := Some 0, node_vy := Some 0\<rparr>], 1)"
    using r1 [THEN conjunct1] v(1,2) by simp
  have c2: "centerDist (last (fst (seedNode exAB 800 600 exRnd ([exB], 0) (exNode ''Photosynthesis'')))) exB = 80"
    using r1 [THEN conjunct2] .
  have c3: "seedNode [] 800 600 exRnd ([exB], 0) (exNode ''Photosynthesis'') =
       ([exB, (exNode ''Photosynthesis'')\<lparr>node_x := 375, node_y := 275,
                                          node_vx := Some 0, node_vy := Some 0\<rparr>], 2)"
    using r2 [THEN conjunct1] v(3,4) by simp
  have c4: "\<bar>node_x (last (fst (seedNode [] 800 600 exRnd ([exB], 0) (exNode ''Photosynthesis'')))) - 800 / 2\<bar> \<le> 50"
    using r2 [THEN conjunct2, THEN conjunct1, THEN mp, OF r(1)] .
  have c5: "\<bar>node_y (last (fst (seedNode [] 800 600 exRnd ([exB], 0) (exNode ''Photosynthesis'')))) - 600 / 2\<bar> \<le> 50"
    using r2 [THEN conjunct2, THEN conjunct2, THEN mp, OF r(2)] .
  show ?thesis
    using h0 h1 h2 h3 c1 c2 c3 c4 c5 by blast
qed

text \<open>
  The claim as stated fails when the first link that mentions the label leads to a node that
  is seeded later in the same pass. With Carbon dioxide in the layout and a merge that adds
  Photosynthesis and Water with the links Photosynthesis to Water and Photosynthesis to
  Carbon dioxide, Photosynthesis is not placed on the circle around Carbon dioxide but at the
  exact centre (400, 300). With an empty layout and the nodes Light, Plant, Sun linked Light
  to Sun and Plant to Sun, both Light and Plant are placed at the exact centre, with no
  jitter.
\<close>

theorem seed_spawn_position_counterexample:
  "seedNodes [exNode ''Carbon dioxide'', exNode ''Photosynthesis'', exNode ''Water'']
       [exLink ''Photosynthesis'' ''Water'' None, exLink ''Photosynthesis'' ''Carbon dioxide'' None]
       800 600 exRnd [exB] =
     [exB,
      (exNode ''Photosynthesis'')\<lparr>node_x := 400, node_y := 300, node_vx := Some 0, node_vy := Some 0\<rparr>,
      (exNode ''Water'')\<lparr>node_x := 400, node_y := 380, node_vx := Some 0, node_vy := Some 0\<rparr>]
   \<and> centerDist ((exNode ''Photosynthesis'')\<lparr>node_x := 400, node_y := 300,
                                             node_vx := Some 0, node_vy := Some 0\<rparr>) exB \<noteq> 80
   \<and> seedNodes [exNode ''Light'', exNode ''Plant'', exNode ''Sun'']
       [exLink ''Light'' ''Sun'' None, exLink ''Plant'' ''Sun'' None] 800 600 exRnd [] =
     [(exNode ''Light'')\<lparr>node_x := 400, node_y := 300, node_vx := Some 0, node_vy := Some 0\<rparr>,
      (exNode ''Plant'')\<lparr>node_x := 400, node_y := 300, node_vx := Some 0, node_vy := Some 0\<rparr>,
      (exNode ''Sun'')\<lparr>node_x := 400, node_y := 380, node_vx := Some 0, node_vy := Some 0\<rparr>]"
proof -
  have 1: "seedNodes [exNode ''Carbon dioxide'', exNode ''Photosynthesis'', exNode ''Water'']
       [exLink ''Photosynthesis'' ''Water'' None, exLink ''Photosynthesis'' ''Carbon dioxide'' None]
       800 600 exRnd [exB] =
     [exB,
      (exNode ''Photosynthesis'')\<lparr>node_x := 400, node_y := 300, node_vx := Some 0, node_vy := Some 0\<rparr>,
      (exNode ''Water'')\<lparr>node_x := 400, node_y := 380, node_vx := Some 0, node_vy := Some 0\<rparr>]"
    by (simp add: seedNodes_def seedNode_def spawnPosition_def exNode_def exLink_def exB_def exRnd_def)
  have "centerDist ((exNode ''Photosynthesis'')\<lparr>node_x := 400, node_y := 300,
                                             node_vx := Some 0, node_vy := Some 0\<rparr>) exB = sqrt 102500"
    by (simp add: centerDist_def exB_def)
  moreover have "sqrt (80 * 80) < sqrt 102500"
    by (subst real_sqrt_less_iff) simp
  moreover have "sqrt (80 * 80) = (80 :: real)"
    using real_sqrt_mult_self [of 80] by simp
  ultimately have 2: "centerDist ((exNode ''Photosynthesis'')\<lparr>node_x := 400, node_y := 300,
                                             node_vx := Some 0, node_vy := Some 0\<rparr>) exB \<noteq> 80"
    by simp
  have 3: "seedNodes [exNode ''Light'', exNode ''Plant'', exNode ''Sun'']
       [exLink ''Light'' ''Sun'' None, exLink ''Plant'' ''Sun'' None] 800 600 exRnd [] =
     [(exNode ''Light'')\<lparr>node_x := 400, node_y := 300, node_vx := Some 0, node_vy := Some 0\<rparr>,
      (exNode ''Plant'')\<lparr>node_x := 400, node_y := 300, node_vx := Some 0, node_vy := Some 0\<rparr>,
      (exNode ''Sun'')\<lparr>node_x := 400, node_y := 380, node_vx := Some 0, node_vy := Some 0\<rparr>]"
    by (simp add: seedNodes_def seedNode_def spawnPosition_def exNode_def exLink_def exRnd_def)
  show ?thesis
    using 1 2 3 by blast
qed

section \<open>Layout: the guards of the divisions\<close>

text \<open>
  With exact arithmetic the divisors of the force computation are positive: a pair at distance
  zero is treated as at distance one, in the repulsion and in the spring. The lemmas after
  these two carry the tick on exact reals over to the tick on JavaScript numbers.
\<close>

lemma repulsion_zero_distance:
  "repulseDistSq 0 0 = 1" "0 < repulseDistSq dx dy" "0 < sqrt (repulseDistSq dx dy)"
proof -
  show "repulseDistSq 0 0 = 1"
    by (simp add: repulseDistSq_def)
  show "0 < repulseDistSq dx dy"
    by (simp add: repulseDistSq_def Let_def sum_squares_gt_zero_iff)
  then show "0 < sqrt (repulseDistSq dx dy)"
    by simp
qed

lemma spring_zero_distance:
  "springDist 0 0 = 1" "0 < springDist dx dy"
proof -
  show "springDist 0 0 = 1"
    by (simp add: springDist_def)
  show "0 < springDist dx dy"
    by (simp add: springDist_def Let_def sum_squares_gt_zero_iff)
qed

lemma jsub_Fin: "jsub (Fin a) (Fin b) = Fin (a - b)"
  by (simp add: jsub_def)

lemma jmax_Fin: "jmax (Fin a) (Fin b) = Fin (max a b)"
  by (simp add: jmax_def max_def)

lemma jmin_Fin: "jmin (Fin a) (Fin b) = Fin (min a b)"
  by (simp add: jmin_def min_def)

lemma jdiv_Fin: "b \<noteq> 0 \<Longrightarrow> jdiv (Fin a) (Fin b) = Fin (a / b)"
  by simp

lemma jsqrt_Fin: "0 \<le> a \<Longrightarrow> jsqrt (Fin a) = Fin (sqrt a)"
  by simp

lemma jorZero_embed: "jorZero (map_option Fin v) = Fin (orZero v)"
  by (cases v) (simp_all add: jorZero_def jor_def orZero_def)

lemma repulseDistSqJ_Fin: "repulseDistSqJ (Fin a) (Fin b) = Fin (repulseDistSq a b)"
  by (simp add: repulseDistSqJ_def repulseDistSq_def Let_def)

lemma springDistJ_Fin: "springDistJ (Fin a) (Fin b) = Fin (springDist a b)"
  by (simp add: springDistJ_def springDist_def Let_def jor_def)

lemma embedNode_sel:
  "jn_id (embedNode n) = node_id n" "jn_label (embedNode n) = node_label n"
  "jn_x (embedNode n) = Fin (node_x n)" "jn_y (embedNode n) = Fin (node_y n)"
  "jn_vx (embedNode n) = map_option Fin (node_vx n)" "jn_vy (embedNode n) = map_option Fin (node_vy n)"
  by (simp_all add: embedNode_def)

lemma embedNode_upd:
  "(embedNode n)\<lparr>jn_x := Fin a\<rparr> = embedNode (n\<lparr>node_x := a\<rparr>)"
  "(embedNode n)\<lparr>jn_y := Fin a\<rparr> = embedNode (n\<lparr>node_y := a\<rparr>)"
  "(embedNode n)\<lparr>jn_vx := Some (Fin a)\<rparr> = embedNode (n\<lparr>node_vx := Some a\<rparr>)"
  "(embedNode n)\<lparr>jn_vy := Some (Fin a)\<rparr> = embedNode (n\<lparr>node_vy := Some a\<rparr>)"
  by (simp_all add: embedNode_def)

lemma repulsePairJ_embed:
  "repulsePairJ d (embedNode u) (embedNode v) =
     (embedNode (fst (repulsePair d u v)), embedNode (snd (repulsePair d u v)))"
proof -
  define q where "q = repulseDistSq (node_x u - node_x v) (node_y u - node_y v)"
  have q: "0 < q" "q \<noteq> 0" "0 \<le> q" "sqrt q \<noteq> 0"
    using repulsion_zero_distance(2) [of "node_x u - node_x v" "node_y u - node_y v"]
    by (simp_all add: q_def)
  show ?thesis
    unfolding repulsePairJ_def repulsePair_def Let_def embedNode_sel jsub_Fin repulseDistSqJ_Fin
      jorZero_embed q_def [symmetric]
    using q by (simp add: jsub_Fin embedNode_upd)
qed

lemma centerNodeJ_embed:
  "centerNodeJ (Fin cx) (Fin cy) d (embedNode u) = embedNode (centerNode cx cy d u)"
  by (simp add: centerNodeJ_def centerNode_def embedNode_sel jsub_Fin jorZero_embed embedNode_upd)

lemma Fin_if: "(if c then Fin a else Fin b) = Fin (if c then a else b)"
  by simp

lemma embedNode_if: "(if c then embedNode a else embedNode b) = embedNode (if c then a else b)"
  by simp

lemma embedNode_pair_if:
  "(if c then (embedNode a, embedNode b) else (embedNode a', embedNode b')) =
   (embedNode (fst (if c then (a, b) else (a', b'))), embedNode (snd (if c then (a, b) else (a', b'))))"
  by simp

lemma collidePairJ_embed:
  "collidePairJ d (embedNode u) (embedNode v) =
     (embedNode (fst (collidePair d u v)), embedNode (snd (collidePair d u v)))"
  unfolding collidePairJ_def collidePair_def Let_def embedNode_sel jsub_Fin
  by (simp add: jsub_Fin jorZero_embed embedNode_upd embedNode_sel Fin_if embedNode_if
        embedNode_pair_if split del: if_split cong: if_cong)

lemma integrateJ_embed:
  "integrateJ (Fin w) (Fin h) (embedNode n) = embedNode (integrate w h n)"
  unfolding integrateJ_def integrate_def Let_def embedNode_sel jorZero_embed
  by (simp add: jsub_Fin jmax_Fin jmin_Fin embedNode_upd Fin_if split del: if_split cong: if_cong)

lemma finishNodeJ_embed:
  "finishNodeJ (Fin w) (Fin h) d (map_option embedPoint dragPos) (embedNode n) =
     embedNode (finishNode w h d dragPos n)"
  by (cases dragPos)
     (simp_all add: finishNodeJ_def finishNode_def integrateJ_embed embedPoint_def embedNode_sel
        embedNode_upd)

lemma length_pairStep: "length (pairStep f i j s) = length s"
  by (simp add: pairStep_def case_prod_beta)

lemma length_fold_pairStep: "length (fold (pairStep f i) js s) = length s"
  by (induction js arbitrary: s) (simp_all add: length_pairStep)

lemma pairStep_map:
  assumes "\<And>u v. fJ (E u) (E v) = (E (fst (f u v)), E (snd (f u v)))"
      and "i < length s" "j < length s"
  shows "pairStep fJ i j (map E s) = map E (pairStep f i j s)"
  using assms(2,3) by (simp add: pairStep_def case_prod_beta assms(1) map_update)

lemma fold_pairStep_map:
  assumes "\<And>u v. fJ (E u) (E v) = (E (fst (f u v)), E (snd (f u v)))"
      and "i < length s" "\<forall>j \<in> set js. j < length s"
  shows "fold (pairStep fJ i) js (map E s) = map E (fold (pairStep f i) js s)"
  using assms(2,3)
proof (induction js arbitrary: s)
  case Nil
  show ?case by simp
next
  case (Cons j js)
  have j: "j < length s"
    using Cons.prems(2) by simp
  have step: "pairStep fJ i j (map E s) = map E (pairStep f i j s)"
    using assms(1) Cons.prems(1) j by (rule pairStep_map)
  have "fold (pairStep fJ i) js (map E (pairStep f i j s)) =
        map E (fold (pairStep f i) js (pairStep f i j s))"
    using Cons.prems by (intro Cons.IH) (simp_all add: length_pairStep)
  then show ?case
    by (simp add: step)
qed

lemma repulsionJ_outer:
  assumes "\<forall>i \<in> set is. i < length ms"
  shows "fold (\<lambda>i ms. (let ms' = fold (pairStep (repulsePairJ d) i) [Suc i..<length ms] ms
                         in ms'[i := centerNodeJ (Fin cx) (Fin cy) d (ms' ! i)]))
              is (map embedNode ms) =
         map embedNode
           (fold (\<lambda>i ms. (let ms' = fold (pairStep (repulsePair d) i) [Suc i..<length ms] ms
                            in ms'[i := centerNode cx cy d (ms' ! i)])) is ms)"
  using assms
proof (induction "is" arbitrary: ms)
  case Nil
  show ?case by simp
next
  case (Cons i "is")
  have i: "i < length ms"
    using Cons.prems by simp
  define s where "s = fold (pairStep (repulsePair d) i) [Suc i..<length ms] ms"
  have ls: "length s = length ms"
    by (simp add: s_def length_fold_pairStep)
  have inner: "fold (pairStep (repulsePairJ d) i) [Suc i..<length ms] (map embedNode ms) = map embedNode s"
    unfolding s_def using repulsePairJ_embed i by (rule fold_pairStep_map) simp
  have c: "centerNodeJ (Fin cx) (Fin cy) d (map embedNode s ! i) =
           embedNode (centerNode cx cy d (s ! i))"
    using i ls by (simp add: centerNodeJ_embed)
  have step: "(map embedNode s)[i := centerNodeJ (Fin cx) (Fin cy) d
                                       (map embedNode s ! i)] =
              map embedNode (s[i := centerNode cx cy d (s ! i)])"
    unfolding c by (simp add: map_update)
  have rest: "\<forall>k \<in> set is. k < length (s[i := centerNode cx cy d (s ! i)])"
    using Cons.prems ls by simp
  show ?case
    using Cons.IH [OF rest] by (simp add: Let_def inner step s_def [symmetric])
qed

lemma repulsionJ_embed:
  "repulsionJ (Fin w) (Fin h) d (map embedNode ns) = map embedNode (repulsion w h d ns)"
proof -
  have half: "jdiv (Fin w) (Fin 2) = Fin (w / 2)" "jdiv (Fin h) (Fin 2) = Fin (h / 2)"
    by simp_all
  show ?thesis
    unfolding repulsionJ_def repulsion_def length_map half
    by (rule repulsionJ_outer) simp
qed

lemma collisionPassJ_outer:
  assumes "\<forall>i \<in> set is. i < length ms"
  shows "fold (\<lambda>i ms. fold (pairStep (collidePairJ d) i) [Suc i..<length ms] ms) is (map embedNode ms) =
         map embedNode (fold (\<lambda>i ms. fold (pairStep (collidePair d) i) [Suc i..<length ms] ms) is ms)"
  using assms
proof (induction "is" arbitrary: ms)
  case Nil
  show ?case by simp
next
  case (Cons i "is")
  have i: "i < length ms"
    using Cons.prems by simp
  define s where "s = fold (pairStep (collidePair d) i) [Suc i..<length ms] ms"
  have ls: "length s = length ms"
    by (simp add: s_def length_fold_pairStep)
  have inner: "fold (pairStep (collidePairJ d) i) [Suc i..<length ms] (map embedNode ms) = map embedNode s"
    unfolding s_def using collidePairJ_embed i by (rule fold_pairStep_map) simp
  have rest: "\<forall>k \<in> set is. k < length s"
    using Cons.prems ls by simp
  show ?case
    using Cons.IH [OF rest] by (simp add: inner s_def [symmetric])
qed

lemma collisionPassJ_embed:
  "collisionPassJ d (map embedNode ns) = map embedNode (collisionPass d ns)"
  unfolding collisionPassJ_def collisionPass_def length_map
  by (rule collisionPassJ_outer) simp

lemma collisionJ_embed: "collisionJ d (map embedNode ns) = map embedNode (collision d ns)"
  by (simp add: collisionJ_def collision_def collisionPassJ_embed)

lemma findIndex_map: "findIndex P (map E xs) = findIndex (\<lambda>x. P (E x)) xs"
  by (induction xs) simp_all

lemma attractLinkJ_embed:
  "attractLinkJ d link (map embedNode ms) = map embedNode (attractLink d link ms)"
proof (cases "findIndex (\<lambda>n. node_label n = link_source link) ms")
  case None
  then show ?thesis
    by (simp add: attractLinkJ_def attractLink_def findIndex_map embedNode_sel)
next
  case (Some si)
  note si = Some
  show ?thesis
  proof (cases "findIndex (\<lambda>n. node_label n = link_target link) ms")
    case None
    then show ?thesis
      using si by (simp add: attractLinkJ_def attractLink_def findIndex_map embedNode_sel)
  next
    case (Some ti)
    have lsi: "si < length ms" and lti: "ti < length ms"
      using si Some by (auto dest: findIndex_less)
    define dx where "dx = node_x (ms ! ti) - node_x (ms ! si)"
    define dy where "dy = node_y (ms ! ti) - node_y (ms ! si)"
    define fx where "fx = dx / springDist dx dy * ((springDist dx dy - kIdeal) * 0.03)"
    define fy where "fy = dy / springDist dx dy * ((springDist dx dy - kIdeal) * 0.03)"
    have pos: "springDist dx dy \<noteq> 0"
      using spring_zero_distance(2) [of dx dy] by simp
    have jfx: "jmul (jdiv (Fin dx) (springDistJ (Fin dx) (Fin dy)))
                    (jmul (jsub (springDistJ (Fin dx) (Fin dy)) (Fin kIdeal)) (Fin 0.03)) = Fin fx"
      using pos by (simp add: springDistJ_Fin jsub_Fin fx_def)
    have jfy: "jmul (jdiv (Fin dy) (springDistJ (Fin dx) (Fin dy)))
                    (jmul (jsub (springDistJ (Fin dx) (Fin dy)) (Fin kIdeal)) (Fin 0.03)) = Fin fy"
      using pos by (simp add: springDistJ_Fin jsub_Fin fy_def)
    define s1 where "s1 = (if Some (node_id (ms ! si)) \<noteq> d
                         then ms[si := (ms ! si)\<lparr>node_vx := Some (orZero (node_vx (ms ! si)) + fx),
                                                 node_vy := Some (orZero (node_vy (ms ! si)) + fy)\<rparr>]
                         else ms)"
    have l1: "ti < length s1"
      using lti by (simp add: s1_def)
    have j1: "(if Some (jn_id (map embedNode ms ! si)) \<noteq> d
               then (map embedNode ms)[si := (map embedNode ms ! si)
                      \<lparr>jn_vx := Some (jadd (jorZero (jn_vx (map embedNode ms ! si))) (Fin fx)),
                        jn_vy := Some (jadd (jorZero (jn_vy (map embedNode ms ! si))) (Fin fy))\<rparr>]
               else map embedNode ms) = map embedNode s1"
      using lsi by (simp add: s1_def embedNode_sel jorZero_embed embedNode_upd map_update)
    have j2: "(if Some (jn_id (map embedNode s1 ! ti)) \<noteq> d
               then (map embedNode s1)[ti := (map embedNode s1 ! ti)
                      \<lparr>jn_vx := Some (jsub (jorZero (jn_vx (map embedNode s1 ! ti))) (Fin fx)),
                        jn_vy := Some (jsub (jorZero (jn_vy (map embedNode s1 ! ti))) (Fin fy))\<rparr>]
               else map embedNode s1) =
              map embedNode (if Some (node_id (s1 ! ti)) \<noteq> d
                 then s1[ti := (s1 ! ti)\<lparr>node_vx := Some (orZero (node_vx (s1 ! ti)) - fx),
                                           node_vy := Some (orZero (node_vy (s1 ! ti)) - fy)\<rparr>]
                 else s1)"
      using l1 by (simp add: embedNode_sel jorZero_embed jsub_Fin embedNode_upd map_update)
    have a: "attractLink d link ms =
               (if Some (node_id (s1 ! ti)) \<noteq> d
                 then s1[ti := (s1 ! ti)\<lparr>node_vx := Some (orZero (node_vx (s1 ! ti)) - fx),
                                           node_vy := Some (orZero (node_vy (s1 ! ti)) - fy)\<rparr>]
                 else s1)"
      unfolding attractLink_def si Some option.case Let_def s1_def fx_def fy_def dx_def dy_def
      by (rule refl)
    have xs: "jsub (jn_x (map embedNode ms ! ti)) (jn_x (map embedNode ms ! si)) = Fin dx"
             "jsub (jn_y (map embedNode ms ! ti)) (jn_y (map embedNode ms ! si)) = Fin dy"
      using lsi lti by (simp_all add: embedNode_sel jsub_Fin dx_def dy_def)
    have fi: "findIndex (\<lambda>n. jn_label n = link_source link) (map embedNode ms) = Some si"
             "findIndex (\<lambda>n. jn_label n = link_target link) (map embedNode ms) = Some ti"
      using si Some by (simp_all add: findIndex_map embedNode_sel)
    have b: "attractLinkJ d link (map embedNode ms) =
              (if Some (jn_id (map embedNode s1 ! ti)) \<noteq> d
               then (map embedNode s1)[ti := (map embedNode s1 ! ti)
                      \<lparr>jn_vx := Some (jsub (jorZero (jn_vx (map embedNode s1 ! ti))) (Fin fx)),
                        jn_vy := Some (jsub (jorZero (jn_vy (map embedNode s1 ! ti))) (Fin fy))\<rparr>]
               else map embedNode s1)"
      unfolding attractLinkJ_def fi option.case Let_def xs jfx jfy j1 by (rule refl)
    show ?thesis
      unfolding a b j2 by (rule refl)
  qed
qed

lemma attractionJ_embed:
  "attractionJ d ls (map embedNode ms) = map embedNode (attraction d ls ms)"
  unfolding attractionJ_def attraction_def
  by (induction ls arbitrary: ms) (simp_all add: attractLinkJ_embed)

lemma simulateJ_embed:
  "simulateJ (Fin w) (Fin h) d (map_option embedPoint dragPos) ls (map embedNode ns) =
     map embedNode (simulate w h d dragPos ls ns)"
  by (simp add: simulateJ_def simulate_def forces_def repulsionJ_embed attractionJ_embed
        collisionJ_embed finishNodeJ_embed)

lemma finiteNode_embed: "finiteNode (embedNode n)"
  by (cases "node_vx n"; cases "node_vy n") (simp_all add: finiteNode_def embedNode_def)

lemma list_all_finite_embed: "list_all finiteNode (map embedNode ns)"
  by (simp add: list_all_iff finiteNode_embed)

lemma getIntersection_degenerate:
  assumes "\<bar>tx - fx\<bar> < 1" "\<bar>ty - fy\<bar> < 1"
  shows "getIntersection (Fin fx, Fin fy) (Fin tx, Fin ty) (Fin tw) (Fin th) = (Fin tx, Fin ty)"
  using assms by (simp add: getIntersection_def jsub_Fin)

lemma getIntersection_finite:
  assumes "0 \<le> tw + 4" "0 < th + 4"
  shows "isFin (fst (getIntersection (Fin fx, Fin fy) (Fin tx, Fin ty) (Fin tw) (Fin th))) \<and>
         isFin (snd (getIntersection (Fin fx, Fin fy) (Fin tx, Fin ty) (Fin tw) (Fin th)))"
proof (cases "\<bar>tx - fx\<bar> < 1 \<and> \<bar>ty - fy\<bar> < 1")
  case True
  then show ?thesis
    by (simp add: getIntersection_degenerate)
next
  case far: False
  define dx where "dx = tx - fx"
  define dy where "dy = ty - fy"
  have far': "\<not> (\<bar>dx\<bar> < 1 \<and> \<bar>dy\<bar> < 1)"
    using far by (simp add: dx_def dy_def)
  show ?thesis
  proof (cases "\<bar>dy\<bar> * (tw + 4) < \<bar>dx\<bar> * (th + 4)")
    case True
    have "dx \<noteq> 0"
    proof
      assume "dx = 0"
      then have "\<bar>dy\<bar> * (tw + 4) < 0"
        using True by simp
      moreover have "0 \<le> \<bar>dy\<bar> * (tw + 4)"
        using assms(1) by simp
      ultimately show False by simp
    qed
    then show ?thesis
      using True far'
      by (simp add: getIntersection_def jsub_Fin Let_def dx_def [symmetric] dy_def [symmetric])
  next
    case False
    show ?thesis
    proof (cases "dx = 0")
      case True
      then show ?thesis
        using False far'
        by (simp add: getIntersection_def jsub_Fin Let_def dx_def [symmetric] dy_def [symmetric])
    next
      case nz: False
      have "dy \<noteq> 0"
      proof
        assume z: "dy = 0"
        then have "1 \<le> \<bar>dx\<bar>"
          using far' by simp
        then have "0 < \<bar>dx\<bar> * (th + 4)"
          using assms(2) by simp
        then show False
          using False z by simp
      qed
      then show ?thesis
        using False far' nz
        by (simp add: getIntersection_def jsub_Fin Let_def dx_def [symmetric] dy_def [symmetric])
    qed
  qed
qed

lemma repulseDistSqJ_pos: "\<exists>q. repulseDistSqJ (Fin dx) (Fin dy) = Fin q \<and> 0 < q"
  using repulsion_zero_distance(2) [of dx dy] by (simp add: repulseDistSqJ_Fin)

lemma springDistJ_pos: "\<exists>q. springDistJ (Fin dx) (Fin dy) = Fin q \<and> 0 < q"
  using spring_zero_distance(2) [of dx dy] by (simp add: springDistJ_Fin)

text \<open>
  Claim C8. On JavaScript numbers with NaN and the infinities, a tick from finite node
  coordinates, velocities, viewport and pointer computes what the tick on exact reals
  computes, so no NaN and no infinity reaches the positions or the velocities: no division
  of the force computation has a zero divisor. The repulsion treats a pair at distance zero as
  at distance one and otherwise divides by a positive number; the spring does the same. The
  edge geometry returns the target centre unchanged when the centres are less than one unit
  apart on both axes, and for every footprint of positive size its result is finite.
\<close>

theorem divisions_guarded:
  "simulateJ (Fin w) (Fin h) d (map_option embedPoint dragPos) ls (map embedNode ns) =
     map embedNode (simulate w h d dragPos ls ns)
   \<and> list_all finiteNode
        (simulateJ (Fin w) (Fin h) d (map_option embedPoint dragPos) ls (map embedNode ns))
   \<and> repulseDistSqJ (Fin 0) (Fin 0) = Fin 1
   \<and> (\<exists>q. repulseDistSqJ (Fin dx) (Fin dy) = Fin q \<and> 0 < q)
   \<and> springDistJ (Fin 0) (Fin 0) = Fin 1
   \<and> (\<exists>q. springDistJ (Fin dx) (Fin dy) = Fin q \<and> 0 < q)
   \<and> (\<bar>tx - fx\<bar> < 1 \<and> \<bar>ty - fy\<bar> < 1 \<longrightarrow>
        getIntersection (Fin fx, Fin fy) (Fin tx, Fin ty) (Fin tw) (Fin th) = (Fin tx, Fin ty))
   \<and> (0 \<le> tw + 4 \<and> 0 < th + 4 \<longrightarrow>
        isFin (fst (getIntersection (Fin fx, Fin fy) (Fin tx, Fin ty) (Fin tw) (Fin th))) \<and>
        isFin (snd (getIntersection (Fin fx, Fin fy) (Fin tx, Fin ty) (Fin tw) (Fin th))))"
proof -
  have 1: "simulateJ (Fin w) (Fin h) d (map_option embedPoint dragPos) ls (map embedNode ns) =
     map embedNode (simulate w h d dragPos ls ns)"
    by (rule simulateJ_embed)
  have 2: "list_all finiteNode
        (simulateJ (Fin w) (Fin h) d (map_option embedPoint dragPos) ls (map embedNode ns))"
    unfolding 1 by (rule list_all_finite_embed)
  have 3: "repulseDistSqJ (Fin 0) (Fin 0) = Fin 1" "springDistJ (Fin 0) (Fin 0) = Fin 1"
    by (simp_all add: repulseDistSqJ_Fin springDistJ_Fin repulsion_zero_distance(1)
        spring_zero_distance(1))
  show ?thesis
    using 1 2 3 repulseDistSqJ_pos [of dx dy] springDistJ_pos [of dx dy]
      getIntersection_degenerate [of tx fx ty fy tw th]
      getIntersection_finite [of tw th fx fy tx ty]
    by blast
qed

theorem divisions_guarded_witness:
  "list_all finiteNode
     (simulateJ (Fin 800) (Fin 600) (Some ''Photosynthesis'') (map_option embedPoint (Some (10, 20)))
        exAB (map embedNode [exA, exA, exB]))
   \<and> \<bar>100.5 - 100\<bar> < (1 :: real) \<and> \<bar>99.5 - 100\<bar> < (1 :: real)
   \<and> getIntersection (Fin 100, Fin 100) (Fin 100.5, Fin 99.5) (Fin 156) (Fin 44) = (Fin 100.5, Fin 99.5)
   \<and> (0 :: real) \<le> 156 + 4 \<and> (0 :: real) < 44 + 4
   \<and> isFin (fst (getIntersection (Fin 100, Fin 100) (Fin 100, Fin 300) (Fin 156) (Fin 44)))
   \<and> isFin (snd (getIntersection (Fin 100, Fin 100) (Fin 100, Fin 300) (Fin 156) (Fin 44)))"
proof -
  note t1 = divisions_guarded [of 800 600 "Some ''Photosynthesis''" "Some (10, 20)" exAB "[exA, exA, exB]"
      0 0 "100.5" 100 "99.5" 100 156 44]
  note t2 = divisions_guarded [of 800 600 "Some ''Photosynthesis''" "Some (10, 20)" exAB "[exA, exA, exB]"
      0 0 100 100 300 100 156 44]
  have h1: "\<bar>100.5 - 100\<bar> < (1 :: real) \<and> \<bar>99.5 - 100\<bar> < (1 :: real)"
    by simp
  have h2: "(0 :: real) \<le> 156 + 4 \<and> (0 :: real) < 44 + 4"
    by simp
  show ?thesis
    using t1 t2 h1 h2 by blast
qed

section \<open>Layout: the dragged node and the forces on the other nodes\<close>

subsection \<open>The other nodes do not see the pointer\<close>

lemma velClosed_samePlace: "velClosed d samePlace"
  by (simp add: velClosed_def samePlace_def)

lemma forces_samePlace: "list_all2 samePlace ns (forces w h d ls ns)"
  by (rule forces_keeps [OF velClosed_samePlace]) (simp add: list_all2_refl samePlace_def)

lemma forces_two:
  obtains a b where "forces w h d ls [u, v] = [a, b]" "samePlace u a" "samePlace v b"
  using forces_samePlace [of "[u, v]" w h d ls]
  by (auto simp: list_all2_Cons1)

lemma simulate_other_any_pointer:
  assumes "q < length ns" "Some (node_id (ns ! q)) \<noteq> d"
  shows "simulate w h d dragPos ls ns ! q = integrate w h (collision d (forces w h d ls ns) ! q)"
proof -
  have "Some (node_id (collision d (forces w h d ls ns) ! q)) \<noteq> d"
    using assms by (simp add: phases_id)
  then show ?thesis
    using assms(1) by (simp add: simulate_nth finishNode_integrate)
qed

lemma settle_bound: "\<bar>settle v\<bar> \<le> 8"
proof -
  define c where "c = max (- maxV) (min maxV (orZero v * 0.65))"
  have c: "\<bar>c\<bar> \<le> 8"
    unfolding c_def maxV_def by (auto simp: abs_le_iff max_def min_def)
  have "settle v = (if \<bar>c\<bar> < 0.05 then 0 else c)"
    unfolding settle_def Let_def c_def by (rule refl)
  then show ?thesis
    using c by simp
qed

lemma forces_position:
  assumes "q < length ns"
  shows "node_x (forces w h d ls ns ! q) = node_x (ns ! q)"
    and "node_y (forces w h d ls ns ! q) = node_y (ns ! q)"
proof -
  have "samePlace (ns ! q) (forces w h d ls ns ! q)"
    using forces_samePlace assms by (rule list_all2_nthD)
  then show "node_x (forces w h d ls ns ! q) = node_x (ns ! q)"
    and "node_y (forces w h d ls ns ! q) = node_y (ns ! q)"
    by (simp_all add: samePlace_def)
qed

subsection \<open>The velocity after repulsion and centering\<close>

lemma repulseDistSq_sym: "repulseDistSq (a - b) (c - e) = repulseDistSq (b - a) (e - c)"
proof -
  have "(a - b) * (a - b) = (b - a) * (b - a)" "(c - e) * (c - e) = (e - c) * (e - c)"
    by algebra+
  then show ?thesis
    by (simp add: repulseDistSq_def)
qed

lemma pairStep_nth:
  "i < length ms \<Longrightarrow> j < length ms \<Longrightarrow> i \<noteq> j \<Longrightarrow>
   pairStep f i j ms ! q =
     (if q = j then snd (f (ms ! i) (ms ! j))
      else if q = i then fst (f (ms ! i) (ms ! j)) else ms ! q)"
  by (simp add: pairStep_def case_prod_beta nth_list_update)

lemma repulsePair_step_samePlace:
  assumes "list_all2 samePlace ns ms"
  shows "list_all2 samePlace ns (pairStep (repulsePair d) i j ms)"
  by (rule pairStep_keeps)
     (erule repulsePair_keeps(1) [OF velClosed_samePlace],
      erule repulsePair_keeps(2) [OF velClosed_samePlace], rule assms)

lemma repulsion_inner_samePlace:
  assumes "list_all2 samePlace ns ms"
  shows "list_all2 samePlace ns (fold (pairStep (repulsePair d) i) js ms)"
  by (rule fold_keeps [where I = "list_all2 samePlace ns"])
     (erule repulsePair_step_samePlace, rule assms)

lemma repulsion_step_samePlace:
  assumes "list_all2 samePlace ns ms"
  shows "list_all2 samePlace ns
           (let ms' = fold (pairStep (repulsePair d) i) [Suc i..<length ms] ms
            in ms'[i := centerNode cx cy d (ms' ! i)])"
proof -
  define s' where "s' = fold (pairStep (repulsePair d) i) [Suc i..<length ms] ms"
  have s': "list_all2 samePlace ns s'"
    unfolding s'_def using assms by (rule repulsion_inner_samePlace)
  have "list_all2 samePlace ns (s'[i := centerNode cx cy d (s' ! i)])"
    using s'
  proof (rule list_all2_update_right)
    assume "i < length s'"
    then have "samePlace (ns ! i) (s' ! i)"
      using s' by (simp add: list_all2_nthD2)
    then show "samePlace (ns ! i) (centerNode cx cy d (s' ! i))"
      by (rule centerNode_keeps [OF velClosed_samePlace])
  qed
  then show ?thesis
    by (simp add: s'_def Let_def)
qed

lemma repulsion_sum:
  fixes r :: "nat \<Rightarrow> real"
  assumes "q < n"
  shows "(\<Sum>i\<leftarrow>[0..<n]. if q = i then (\<Sum>j\<leftarrow>[Suc i..<n]. r j) + c
                        else if i < q then r i else 0) =
         sum r ({..<n} - {q}) + c"
proof -
  have "(\<Sum>i\<leftarrow>[0..<n]. if q = i then (\<Sum>j\<leftarrow>[Suc i..<n]. r j) + c
                        else if i < q then r i else 0) =
        (\<Sum>i\<in>{0..<n}. if q = i then (\<Sum>j\<leftarrow>[Suc i..<n]. r j) + c
                        else if i < q then r i else 0)"
    by (simp add: interv_sum_list_conv_sum_set_nat)
  also have "\<dots> = (\<Sum>j\<leftarrow>[Suc q..<n]. r j) + c +
                  (\<Sum>i\<in>{0..<n} - {q}. if q = i then (\<Sum>j\<leftarrow>[Suc i..<n]. r j) + c
                        else if i < q then r i else 0)"
    using assms by (subst sum.remove [of _ q]) simp_all
  also have "(\<Sum>i\<in>{0..<n} - {q}. if q = i then (\<Sum>j\<leftarrow>[Suc i..<n]. r j) + c
                        else if i < q then r i else 0) =
             (\<Sum>i\<in>{0..<n} - {q}. if i < q then r i else 0)"
    by (rule sum.cong) auto
  also have "\<dots> = sum r {0..<q}"
    using assms by (subst sum.mono_neutral_cong_right [of "{0..<n} - {q}" "{0..<q}" "\<lambda>i. if i < q then r i else 0" r]) auto
  also have "(\<Sum>j\<leftarrow>[Suc q..<n]. r j) = sum r {Suc q..<n}"
    by (simp add: interv_sum_list_conv_sum_set_nat)
  finally have "(\<Sum>i\<leftarrow>[0..<n]. if q = i then (\<Sum>j\<leftarrow>[Suc i..<n]. r j) + c
                        else if i < q then r i else 0) =
         sum r {Suc q..<n} + c + sum r {0..<q}" .
  moreover have "{..<n} - {q} = {0..<q} \<union> {Suc q..<n}"
    using assms by auto
  then have "sum r ({..<n} - {q}) = sum r {0..<q} + sum r {Suc q..<n}"
    by (simp add: sum.union_disjoint)
  ultimately show ?thesis
    by simp
qed

lemma repulseOnX_anti: "repulseOnX v u = - repulseOnX u v"
proof -
  have "node_x v - node_x u = - (node_x u - node_x v)"
    by simp
  then show ?thesis
    unfolding repulseOnX_def Let_def
      repulseDistSq_sym [of "node_x v" "node_x u" "node_y v" "node_y u"]
    by (simp only: minus_divide_left [symmetric] mult_minus_left)
qed

lemma repulsePair_fst_vx:
  "Some (node_id u) \<noteq> d \<Longrightarrow>
   orZero (node_vx (fst (repulsePair d u v))) = orZero (node_vx u) + repulseOnX u v"
  by (simp add: repulsePair_def repulseOnX_def Let_def orZero_def)

lemma repulsePair_snd_vx:
  "Some (node_id v) \<noteq> d \<Longrightarrow>
   orZero (node_vx (snd (repulsePair d u v))) = orZero (node_vx v) + repulseOnX v u"
  unfolding repulseOnX_anti [of v u]
  by (simp add: repulsePair_def repulseOnX_def Let_def orZero_def)

lemma repulseOnX_samePlace:
  "samePlace a a' \<Longrightarrow> samePlace b b' \<Longrightarrow> repulseOnX a' b' = repulseOnX a b"
  by (simp add: samePlace_def repulseOnX_def)

lemma repulsion_inner_vx:
  assumes "i < length ns" "q < length ns" "Some (node_id (ns ! q)) \<noteq> d"
      and "list_all2 samePlace ns ms" "distinct js" "\<forall>j\<in>set js. j < length ns \<and> j \<noteq> i"
  shows "orZero (node_vx (fold (pairStep (repulsePair d) i) js ms ! q)) =
         orZero (node_vx (ms ! q)) +
         (if q = i then (\<Sum>j\<leftarrow>js. repulseOnX (ns ! i) (ns ! j))
          else if q \<in> set js then repulseOnX (ns ! q) (ns ! i) else 0)"
  using assms(4,5,6)
proof (induction js arbitrary: ms)
  case Nil
  show ?case by simp
next
  case (Cons j js)
  define ms1 where "ms1 = pairStep (repulsePair d) i j ms"
  have len: "length ms = length ns"
    using Cons.prems(1) by (simp add: list_all2_lengthD)
  have j: "j < length ns" "j \<noteq> i" "j \<notin> set js"
    using Cons.prems(2,3) by simp_all
  have P1: "list_all2 samePlace ns ms1"
    unfolding ms1_def using Cons.prems(1) by (rule repulsePair_step_samePlace)
  have sp: "samePlace (ns ! k) (ms ! k)" if "k < length ns" for k
    using Cons.prems(1) that by (simp add: list_all2_nthD)
  have idq: "Some (node_id (ms ! q)) \<noteq> d"
    using sp [OF assms(2)] assms(3) by (simp add: samePlace_def)
  have nth: "ms1 ! q = (if q = j then snd (repulsePair d (ms ! i) (ms ! j))
                        else if q = i then fst (repulsePair d (ms ! i) (ms ! j)) else ms ! q)"
    unfolding ms1_def using assms(1) j len by (simp add: pairStep_nth)
  have r: "repulseOnX (ms ! a) (ms ! b) = repulseOnX (ns ! a) (ns ! b)"
    if "a < length ns" "b < length ns" for a b
    using sp [OF that(1)] sp [OF that(2)] by (rule repulseOnX_samePlace)
  have one: "orZero (node_vx (ms1 ! q)) = orZero (node_vx (ms ! q)) +
             (if q = i then repulseOnX (ns ! i) (ns ! j)
              else if q = j then repulseOnX (ns ! q) (ns ! i) else 0)"
  proof (cases "q = j")
    case True
    then show ?thesis
      unfolding nth using idq j assms(1) by (simp add: repulsePair_snd_vx r)
  next
    case False
    show ?thesis
    proof (cases "q = i")
      case True
      then show ?thesis
        unfolding nth using idq j assms(1) False by (simp add: repulsePair_fst_vx r)
    next
      case False
      with \<open>q \<noteq> j\<close> show ?thesis unfolding nth by simp
    qed
  qed
  have "orZero (node_vx (fold (pairStep (repulsePair d) i) js ms1 ! q)) =
        orZero (node_vx (ms1 ! q)) +
        (if q = i then (\<Sum>j\<leftarrow>js. repulseOnX (ns ! i) (ns ! j))
         else if q \<in> set js then repulseOnX (ns ! q) (ns ! i) else 0)"
    using Cons.IH [OF P1] Cons.prems(2,3) by simp
  then show ?case
    using one j by (auto simp: ms1_def)
qed

lemma centerNode_vx:
  "Some (node_id u) \<noteq> d \<Longrightarrow>
   orZero (node_vx (centerNode cx cy d u)) = orZero (node_vx u) + (cx - node_x u) * 0.005"
  by (simp add: centerNode_def orZero_def)

lemma repulsion_step_vx:
  assumes "i < length ns" "q < length ns" "Some (node_id (ns ! q)) \<noteq> d"
      and "list_all2 samePlace ns ms"
  shows "orZero (node_vx ((let ms' = fold (pairStep (repulsePair d) i) [Suc i..<length ms] ms
                           in ms'[i := centerNode cx cy d (ms' ! i)]) ! q)) =
         orZero (node_vx (ms ! q)) +
         (if q = i then (\<Sum>j\<leftarrow>[Suc i..<length ns]. repulseOnX (ns ! i) (ns ! j)) +
                        (cx - node_x (ns ! i)) * 0.005
          else if i < q then repulseOnX (ns ! q) (ns ! i) else 0)"
proof -
  define s' where "s' = fold (pairStep (repulsePair d) i) [Suc i..<length ms] ms"
  have len: "length ms = length ns"
    using assms(4) by (simp add: list_all2_lengthD)
  have s': "list_all2 samePlace ns s'"
    unfolding s'_def using assms(4) by (rule repulsion_inner_samePlace)
  have len': "length s' = length ns"
    using s' by (simp add: list_all2_lengthD)
  have inner: "orZero (node_vx (s' ! q)) =
         orZero (node_vx (ms ! q)) +
         (if q = i then (\<Sum>j\<leftarrow>[Suc i..<length ns]. repulseOnX (ns ! i) (ns ! j))
          else if q \<in> set [Suc i..<length ns] then repulseOnX (ns ! q) (ns ! i) else 0)"
    unfolding s'_def len
    by (rule repulsion_inner_vx [OF assms(1,2,3,4)]) simp_all
  have sp: "samePlace (ns ! q) (s' ! q)"
    using s' assms(2) by (simp add: list_all2_nthD)
  have idq: "Some (node_id (s' ! q)) \<noteq> d"
    using sp assms(3) by (simp add: samePlace_def)
  have x: "node_x (s' ! q) = node_x (ns ! q)"
    using sp by (simp add: samePlace_def)
  have "orZero (node_vx (s'[i := centerNode cx cy d (s' ! i)] ! q)) =
         orZero (node_vx (ms ! q)) +
         (if q = i then (\<Sum>j\<leftarrow>[Suc i..<length ns]. repulseOnX (ns ! i) (ns ! j)) +
                        (cx - node_x (ns ! i)) * 0.005
          else if i < q then repulseOnX (ns ! q) (ns ! i) else 0)"
  proof (cases "q = i")
    case True
    then show ?thesis
      using assms(1) len' idq x inner by (simp add: centerNode_vx)
  next
    case False
    then show ?thesis
      using assms(2) inner by auto
  qed
  then show ?thesis
    by (simp add: s'_def Let_def)
qed

lemma repulsion_prefix_vx:
  assumes "q < length ns" "Some (node_id (ns ! q)) \<noteq> d" "k \<le> length ns"
  shows "list_all2 samePlace ns
           (fold (\<lambda>i ms. (let ms' = fold (pairStep (repulsePair d) i) [Suc i..<length ms] ms
                          in ms'[i := centerNode cx cy d (ms' ! i)])) [0..<k] ns)
       \<and> orZero (node_vx (fold (\<lambda>i ms. (let ms' = fold (pairStep (repulsePair d) i) [Suc i..<length ms] ms
                          in ms'[i := centerNode cx cy d (ms' ! i)])) [0..<k] ns ! q)) =
         orZero (node_vx (ns ! q)) +
         (\<Sum>i\<leftarrow>[0..<k].
            if q = i then (\<Sum>j\<leftarrow>[Suc i..<length ns]. repulseOnX (ns ! i) (ns ! j)) +
                          (cx - node_x (ns ! i)) * 0.005
            else if i < q then repulseOnX (ns ! q) (ns ! i) else 0)"
  using assms(3)
proof (induction k)
  case 0
  show ?case
    by (simp add: list_all2_refl samePlace_def)
next
  case (Suc k)
  define step where "step = (\<lambda>i ms. (let ms' = fold (pairStep (repulsePair d) i) [Suc i..<length ms] ms
                          in ms'[i := centerNode cx cy d (ms' ! i)]))"
  define ms where "ms = fold step [0..<k] ns"
  have k: "k < length ns"
    using Suc.prems by simp
  have P: "list_all2 samePlace ns ms"
    and v: "orZero (node_vx (ms ! q)) = orZero (node_vx (ns ! q)) +
         (\<Sum>i\<leftarrow>[0..<k].
            if q = i then (\<Sum>j\<leftarrow>[Suc i..<length ns]. repulseOnX (ns ! i) (ns ! j)) +
                          (cx - node_x (ns ! i)) * 0.005
            else if i < q then repulseOnX (ns ! q) (ns ! i) else 0)"
    using Suc.IH k by (simp_all add: ms_def step_def)
  have f: "fold step [0..<Suc k] ns = step k ms"
    by (simp add: ms_def)
  have P': "list_all2 samePlace ns (step k ms)"
    unfolding step_def using P by (rule repulsion_step_samePlace)
  have v': "orZero (node_vx (step k ms ! q)) = orZero (node_vx (ms ! q)) +
         (if q = k then (\<Sum>j\<leftarrow>[Suc k..<length ns]. repulseOnX (ns ! k) (ns ! j)) +
                        (cx - node_x (ns ! k)) * 0.005
          else if k < q then repulseOnX (ns ! q) (ns ! k) else 0)"
    unfolding step_def by (rule repulsion_step_vx [OF k assms(1,2) P])
  show ?case
    unfolding step_def [symmetric] f using P' v' v by simp
qed

lemma repulsion_vx:
  assumes "q < length ns" "Some (node_id (ns ! q)) \<noteq> d"
  shows "orZero (node_vx (repulsion w h d ns ! q)) =
         orZero (node_vx (ns ! q)) +
         (\<Sum>j\<in>{..<length ns} - {q}. repulseOnX (ns ! q) (ns ! j)) +
         (w / 2 - node_x (ns ! q)) * 0.005"
proof -
  have "orZero (node_vx (repulsion w h d ns ! q)) =
         orZero (node_vx (ns ! q)) +
         (\<Sum>i\<leftarrow>[0..<length ns].
            if q = i then (\<Sum>j\<leftarrow>[Suc i..<length ns]. repulseOnX (ns ! i) (ns ! j)) +
                          (w / 2 - node_x (ns ! i)) * 0.005
            else if i < q then repulseOnX (ns ! q) (ns ! i) else 0)"
    unfolding repulsion_def
    using repulsion_prefix_vx [OF assms order_refl, of "w / 2" "h / 2"] by simp
  also have "(\<Sum>i\<leftarrow>[0..<length ns].
            if q = i then (\<Sum>j\<leftarrow>[Suc i..<length ns]. repulseOnX (ns ! i) (ns ! j)) +
                          (w / 2 - node_x (ns ! i)) * 0.005
            else if i < q then repulseOnX (ns ! q) (ns ! i) else 0) =
        (\<Sum>i\<leftarrow>[0..<length ns].
            if q = i then (\<Sum>j\<leftarrow>[Suc i..<length ns]. repulseOnX (ns ! q) (ns ! j)) +
                          (w / 2 - node_x (ns ! q)) * 0.005
            else if i < q then repulseOnX (ns ! q) (ns ! i) else 0)"
    by (rule arg_cong [where f = sum_list], rule map_cong) simp_all
  also have "\<dots> = (\<Sum>j\<in>{..<length ns} - {q}. repulseOnX (ns ! q) (ns ! j)) +
                   (w / 2 - node_x (ns ! q)) * 0.005"
    using assms(1) by (rule repulsion_sum)
  finally show ?thesis
    by simp
qed

lemma repulseOnY_anti: "repulseOnY v u = - repulseOnY u v"
proof -
  have "node_y v - node_y u = - (node_y u - node_y v)"
    by simp
  then show ?thesis
    unfolding repulseOnY_def Let_def
      repulseDistSq_sym [of "node_x v" "node_x u" "node_y v" "node_y u"]
    by (simp only: minus_divide_left [symmetric] mult_minus_left)
qed

lemma repulsePair_fst_vy:
  "Some (node_id u) \<noteq> d \<Longrightarrow>
   orZero (node_vy (fst (repulsePair d u v))) = orZero (node_vy u) + repulseOnY u v"
  by (simp add: repulsePair_def repulseOnY_def Let_def orZero_def)

lemma repulsePair_snd_vy:
  "Some (node_id v) \<noteq> d \<Longrightarrow>
   orZero (node_vy (snd (repulsePair d u v))) = orZero (node_vy v) + repulseOnY v u"
  unfolding repulseOnY_anti [of v u]
  by (simp add: repulsePair_def repulseOnY_def Let_def orZero_def)

lemma repulseOnY_samePlace:
  "samePlace a a' \<Longrightarrow> samePlace b b' \<Longrightarrow> repulseOnY a' b' = repulseOnY a b"
  by (simp add: samePlace_def repulseOnY_def)

lemma repulsion_inner_vy:
  assumes "i < length ns" "q < length ns" "Some (node_id (ns ! q)) \<noteq> d"
      and "list_all2 samePlace ns ms" "distinct js" "\<forall>j\<in>set js. j < length ns \<and> j \<noteq> i"
  shows "orZero (node_vy (fold (pairStep (repulsePair d) i) js ms ! q)) =
         orZero (node_vy (ms ! q)) +
         (if q = i then (\<Sum>j\<leftarrow>js. repulseOnY (ns ! i) (ns ! j))
          else if q \<in> set js then repulseOnY (ns ! q) (ns ! i) else 0)"
  using assms(4,5,6)
proof (induction js arbitrary: ms)
  case Nil
  show ?case by simp
next
  case (Cons j js)
  define ms1 where "ms1 = pairStep (repulsePair d) i j ms"
  have len: "length ms = length ns"
    using Cons.prems(1) by (simp add: list_all2_lengthD)
  have j: "j < length ns" "j \<noteq> i" "j \<notin> set js"
    using Cons.prems(2,3) by simp_all
  have P1: "list_all2 samePlace ns ms1"
    unfolding ms1_def using Cons.prems(1) by (rule repulsePair_step_samePlace)
  have sp: "samePlace (ns ! k) (ms ! k)" if "k < length ns" for k
    using Cons.prems(1) that by (simp add: list_all2_nthD)
  have idq: "Some (node_id (ms ! q)) \<noteq> d"
    using sp [OF assms(2)] assms(3) by (simp add: samePlace_def)
  have nth: "ms1 ! q = (if q = j then snd (repulsePair d (ms ! i) (ms ! j))
                        else if q = i then fst (repulsePair d (ms ! i) (ms ! j)) else ms ! q)"
    unfolding ms1_def using assms(1) j len by (simp add: pairStep_nth)
  have r: "repulseOnY (ms ! a) (ms ! b) = repulseOnY (ns ! a) (ns ! b)"
    if "a < length ns" "b < length ns" for a b
    using sp [OF that(1)] sp [OF that(2)] by (rule repulseOnY_samePlace)
  have one: "orZero (node_vy (ms1 ! q)) = orZero (node_vy (ms ! q)) +
             (if q = i then repulseOnY (ns ! i) (ns ! j)
              else if q = j then repulseOnY (ns ! q) (ns ! i) else 0)"
  proof (cases "q = j")
    case True
    then show ?thesis
      unfolding nth using idq j assms(1) by (simp add: repulsePair_snd_vy r)
  next
    case False
    show ?thesis
    proof (cases "q = i")
      case True
      then show ?thesis
        unfolding nth using idq j assms(1) False by (simp add: repulsePair_fst_vy r)
    next
      case False
      with \<open>q \<noteq> j\<close> show ?thesis unfolding nth by simp
    qed
  qed
  have "orZero (node_vy (fold (pairStep (repulsePair d) i) js ms1 ! q)) =
        orZero (node_vy (ms1 ! q)) +
        (if q = i then (\<Sum>j\<leftarrow>js. repulseOnY (ns ! i) (ns ! j))
         else if q \<in> set js then repulseOnY (ns ! q) (ns ! i) else 0)"
    using Cons.IH [OF P1] Cons.prems(2,3) by simp
  then show ?case
    using one j by (auto simp: ms1_def)
qed

lemma centerNode_vy:
  "Some (node_id u) \<noteq> d \<Longrightarrow>
   orZero (node_vy (centerNode cx cy d u)) = orZero (node_vy u) + (cy - node_y u) * 0.005"
  by (simp add: centerNode_def orZero_def)

lemma repulsion_step_vy:
  assumes "i < length ns" "q < length ns" "Some (node_id (ns ! q)) \<noteq> d"
      and "list_all2 samePlace ns ms"
  shows "orZero (node_vy ((let ms' = fold (pairStep (repulsePair d) i) [Suc i..<length ms] ms
                           in ms'[i := centerNode cx cy d (ms' ! i)]) ! q)) =
         orZero (node_vy (ms ! q)) +
         (if q = i then (\<Sum>j\<leftarrow>[Suc i..<length ns]. repulseOnY (ns ! i) (ns ! j)) +
                        (cy - node_y (ns ! i)) * 0.005
          else if i < q then repulseOnY (ns ! q) (ns ! i) else 0)"
proof -
  define s' where "s' = fold (pairStep (repulsePair d) i) [Suc i..<length ms] ms"
  have len: "length ms = length ns"
    using assms(4) by (simp add: list_all2_lengthD)
  have s': "list_all2 samePlace ns s'"
    unfolding s'_def using assms(4) by (rule repulsion_inner_samePlace)
  have len': "length s' = length ns"
    using s' by (simp add: list_all2_lengthD)
  have inner: "orZero (node_vy (s' ! q)) =
         orZero (node_vy (ms ! q)) +
         (if q = i then (\<Sum>j\<leftarrow>[Suc i..<length ns]. repulseOnY (ns ! i) (ns ! j))
          else if q \<in> set [Suc i..<length ns] then repulseOnY (ns ! q) (ns ! i) else 0)"
    unfolding s'_def len
    by (rule repulsion_inner_vy [OF assms(1,2,3,4)]) simp_all
  have sp: "samePlace (ns ! q) (s' ! q)"
    using s' assms(2) by (simp add: list_all2_nthD)
  have idq: "Some (node_id (s' ! q)) \<noteq> d"
    using sp assms(3) by (simp add: samePlace_def)
  have x: "node_y (s' ! q) = node_y (ns ! q)"
    using sp by (simp add: samePlace_def)
  have "orZero (node_vy (s'[i := centerNode cx cy d (s' ! i)] ! q)) =
         orZero (node_vy (ms ! q)) +
         (if q = i then (\<Sum>j\<leftarrow>[Suc i..<length ns]. repulseOnY (ns ! i) (ns ! j)) +
                        (cy - node_y (ns ! i)) * 0.005
          else if i < q then repulseOnY (ns ! q) (ns ! i) else 0)"
  proof (cases "q = i")
    case True
    then show ?thesis
      using assms(1) len' idq x inner by (simp add: centerNode_vy)
  next
    case False
    then show ?thesis
      using assms(2) inner by auto
  qed
  then show ?thesis
    by (simp add: s'_def Let_def)
qed

lemma repulsion_prefix_vy:
  assumes "q < length ns" "Some (node_id (ns ! q)) \<noteq> d" "k \<le> length ns"
  shows "list_all2 samePlace ns
           (fold (\<lambda>i ms. (let ms' = fold (pairStep (repulsePair d) i) [Suc i..<length ms] ms
                          in ms'[i := centerNode cx cy d (ms' ! i)])) [0..<k] ns)
       \<and> orZero (node_vy (fold (\<lambda>i ms. (let ms' = fold (pairStep (repulsePair d) i) [Suc i..<length ms] ms
                          in ms'[i := centerNode cx cy d (ms' ! i)])) [0..<k] ns ! q)) =
         orZero (node_vy (ns ! q)) +
         (\<Sum>i\<leftarrow>[0..<k].
            if q = i then (\<Sum>j\<leftarrow>[Suc i..<length ns]. repulseOnY (ns ! i) (ns ! j)) +
                          (cy - node_y (ns ! i)) * 0.005
            else if i < q then repulseOnY (ns ! q) (ns ! i) else 0)"
  using assms(3)
proof (induction k)
  case 0
  show ?case
    by (simp add: list_all2_refl samePlace_def)
next
  case (Suc k)
  define step where "step = (\<lambda>i ms. (let ms' = fold (pairStep (repulsePair d) i) [Suc i..<length ms] ms
                          in ms'[i := centerNode cx cy d (ms' ! i)]))"
  define ms where "ms = fold step [0..<k] ns"
  have k: "k < length ns"
    using Suc.prems by simp
  have P: "list_all2 samePlace ns ms"
    and v: "orZero (node_vy (ms ! q)) = orZero (node_vy (ns ! q)) +
         (\<Sum>i\<leftarrow>[0..<k].
            if q = i then (\<Sum>j\<leftarrow>[Suc i..<length ns]. repulseOnY (ns ! i) (ns ! j)) +
                          (cy - node_y (ns ! i)) * 0.005
            else if i < q then repulseOnY (ns ! q) (ns ! i) else 0)"
    using Suc.IH k by (simp_all add: ms_def step_def)
  have f: "fold step [0..<Suc k] ns = step k ms"
    by (simp add: ms_def)
  have P': "list_all2 samePlace ns (step k ms)"
    unfolding step_def using P by (rule repulsion_step_samePlace)
  have v': "orZero (node_vy (step k ms ! q)) = orZero (node_vy (ms ! q)) +
         (if q = k then (\<Sum>j\<leftarrow>[Suc k..<length ns]. repulseOnY (ns ! k) (ns ! j)) +
                        (cy - node_y (ns ! k)) * 0.005
          else if k < q then repulseOnY (ns ! q) (ns ! k) else 0)"
    unfolding step_def by (rule repulsion_step_vy [OF k assms(1,2) P])
  show ?case
    unfolding step_def [symmetric] f using P' v' v by simp
qed

lemma repulsion_vy:
  assumes "q < length ns" "Some (node_id (ns ! q)) \<noteq> d"
  shows "orZero (node_vy (repulsion w h d ns ! q)) =
         orZero (node_vy (ns ! q)) +
         (\<Sum>j\<in>{..<length ns} - {q}. repulseOnY (ns ! q) (ns ! j)) +
         (h / 2 - node_y (ns ! q)) * 0.005"
proof -
  have "orZero (node_vy (repulsion w h d ns ! q)) =
         orZero (node_vy (ns ! q)) +
         (\<Sum>i\<leftarrow>[0..<length ns].
            if q = i then (\<Sum>j\<leftarrow>[Suc i..<length ns]. repulseOnY (ns ! i) (ns ! j)) +
                          (h / 2 - node_y (ns ! i)) * 0.005
            else if i < q then repulseOnY (ns ! q) (ns ! i) else 0)"
    unfolding repulsion_def
    using repulsion_prefix_vy [OF assms order_refl, of "w / 2" "h / 2"] by simp
  also have "(\<Sum>i\<leftarrow>[0..<length ns].
            if q = i then (\<Sum>j\<leftarrow>[Suc i..<length ns]. repulseOnY (ns ! i) (ns ! j)) +
                          (h / 2 - node_y (ns ! i)) * 0.005
            else if i < q then repulseOnY (ns ! q) (ns ! i) else 0) =
        (\<Sum>i\<leftarrow>[0..<length ns].
            if q = i then (\<Sum>j\<leftarrow>[Suc i..<length ns]. repulseOnY (ns ! q) (ns ! j)) +
                          (h / 2 - node_y (ns ! q)) * 0.005
            else if i < q then repulseOnY (ns ! q) (ns ! i) else 0)"
    by (rule arg_cong [where f = sum_list], rule map_cong) simp_all
  also have "\<dots> = (\<Sum>j\<in>{..<length ns} - {q}. repulseOnY (ns ! q) (ns ! j)) +
                   (h / 2 - node_y (ns ! q)) * 0.005"
    using assms(1) by (rule repulsion_sum)
  finally show ?thesis
    by simp
qed

subsection \<open>The velocity after the springs\<close>

lemma findIndex_samePlace:
  assumes "list_all2 samePlace ns ms"
  shows "findIndex (\<lambda>n. node_label n = s) ms = findIndex (\<lambda>n. node_label n = s) ns"
  using assms by (induction ns ms rule: list_all2_induct) (simp_all add: samePlace_def)

lemma attractLink_samePlace:
  assumes "list_all2 samePlace ns ms"
  shows "list_all2 samePlace ns (attractLink d link ms)"
  using velClosed_samePlace assms by (rule attractLink_keeps)

lemma repulsion_samePlace: "list_all2 samePlace ns (repulsion w h d ns)"
  by (rule repulsion_keeps [OF velClosed_samePlace]) (simp add: list_all2_refl samePlace_def)

lemma attractLink_vx:
  assumes "q < length ns" "Some (node_id (ns ! q)) \<noteq> d" "list_all2 samePlace ns ms"
  shows "orZero (node_vx (attractLink d link ms ! q)) =
         orZero (node_vx (ms ! q)) + springOnX ns link q"
proof (cases "findIndex (\<lambda>n. node_label n = link_source link) ns")
  case None
  then show ?thesis
    by (simp add: attractLink_def springOnX_def findIndex_samePlace [OF assms(3)])
next
  case (Some si)
  note si = Some
  show ?thesis
  proof (cases "findIndex (\<lambda>n. node_label n = link_target link) ns")
    case None
    then show ?thesis
      using si by (simp add: attractLink_def springOnX_def findIndex_samePlace [OF assms(3)])
  next
    case (Some ti)
    have len: "length ms = length ns"
      using assms(3) by (simp add: list_all2_lengthD)
    have sil: "si < length ns" and til: "ti < length ns"
      using si Some by (auto dest: findIndex_less)
    have sp: "samePlace (ns ! k) (ms ! k)" if "k < length ns" for k
      using assms(3) that by (simp add: list_all2_nthD)
    have pos: "node_x (ms ! si) = node_x (ns ! si)" "node_y (ms ! si) = node_y (ns ! si)"
      "node_x (ms ! ti) = node_x (ns ! ti)" "node_y (ms ! ti) = node_y (ns ! ti)"
      using sp [OF sil] sp [OF til] by (simp_all add: samePlace_def)
    have idq: "Some (node_id (ms ! q)) \<noteq> d"
      using sp [OF assms(1)] assms(2) by (simp add: samePlace_def)
    define fx where "fx = (node_x (ns ! ti) - node_x (ns ! si)) /
        springDist (node_x (ns ! ti) - node_x (ns ! si)) (node_y (ns ! ti) - node_y (ns ! si)) *
        ((springDist (node_x (ns ! ti) - node_x (ns ! si)) (node_y (ns ! ti) - node_y (ns ! si))
           - kIdeal) * 0.03)"
    define fy where "fy = (node_y (ns ! ti) - node_y (ns ! si)) /
        springDist (node_x (ns ! ti) - node_x (ns ! si)) (node_y (ns ! ti) - node_y (ns ! si)) *
        ((springDist (node_x (ns ! ti) - node_x (ns ! si)) (node_y (ns ! ti) - node_y (ns ! si))
           - kIdeal) * 0.03)"
    have s: "springOnX ns link q = (if q = si then fx else 0) - (if q = ti then fx else 0)"
      by (simp add: springOnX_def si Some Let_def fx_def)
    define ns1 where "ns1 = (if Some (node_id (ms ! si)) \<noteq> d
                         then ms[si := (ms ! si)\<lparr>node_vx := Some (orZero (node_vx (ms ! si)) + fx),
                                                 node_vy := Some (orZero (node_vy (ms ! si)) + fy)\<rparr>]
                         else ms)"
    have a: "attractLink d link ms =
             (if Some (node_id (ns1 ! ti)) \<noteq> d
                 then ns1[ti := (ns1 ! ti)\<lparr>node_vx := Some (orZero (node_vx (ns1 ! ti)) - fx),
                                           node_vy := Some (orZero (node_vy (ns1 ! ti)) - fy)\<rparr>]
                 else ns1)"
      unfolding attractLink_def findIndex_samePlace [OF assms(3)] si Some option.case Let_def pos
        ns1_def fx_def fy_def by (rule refl)
    have len1: "length ns1 = length ns"
      by (simp add: ns1_def len)
    have id1: "node_id (ns1 ! q) = node_id (ms ! q)"
      using sil len by (simp add: ns1_def nth_list_update)
    have v1: "orZero (node_vx (ns1 ! q)) = orZero (node_vx (ms ! q)) + (if q = si then fx else 0)"
      using sil len idq by (auto simp: ns1_def nth_list_update orZero_def)
    have "orZero (node_vx (attractLink d link ms ! q)) =
          orZero (node_vx (ns1 ! q)) - (if q = ti then fx else 0)"
      unfolding a using til len1 idq id1 by (auto simp: nth_list_update orZero_def)
    then show ?thesis
      using v1 s by simp
  qed
qed

lemma attraction_vx:
  assumes "q < length ns" "Some (node_id (ns ! q)) \<noteq> d" "list_all2 samePlace ns ms"
  shows "orZero (node_vx (attraction d ls ms ! q)) =
         orZero (node_vx (ms ! q)) + (\<Sum>l\<leftarrow>ls. springOnX ns l q)"
  using assms(3) unfolding attraction_def
proof (induction ls arbitrary: ms)
  case Nil
  show ?case by simp
next
  case (Cons l ls)
  have "orZero (node_vx (fold (attractLink d) ls (attractLink d l ms) ! q)) =
        orZero (node_vx (attractLink d l ms ! q)) + (\<Sum>l\<leftarrow>ls. springOnX ns l q)"
    by (rule Cons.IH) (rule attractLink_samePlace [OF Cons.prems])
  then show ?case
    using attractLink_vx [OF assms(1,2) Cons.prems, of l] by simp
qed

lemma forces_vx:
  assumes "q < length ns" "Some (node_id (ns ! q)) \<noteq> d"
  shows "orZero (node_vx (forces w h d ls ns ! q)) =
         orZero (node_vx (ns ! q)) +
         (\<Sum>j\<in>{..<length ns} - {q}. repulseOnX (ns ! q) (ns ! j)) +
         (w / 2 - node_x (ns ! q)) * 0.005 +
         (\<Sum>l\<leftarrow>ls. springOnX ns l q)"
  unfolding forces_def
  using attraction_vx [OF assms repulsion_samePlace, of ls w h] repulsion_vx [OF assms, of w h]
  by simp

lemma attractLink_vy:
  assumes "q < length ns" "Some (node_id (ns ! q)) \<noteq> d" "list_all2 samePlace ns ms"
  shows "orZero (node_vy (attractLink d link ms ! q)) =
         orZero (node_vy (ms ! q)) + springOnY ns link q"
proof (cases "findIndex (\<lambda>n. node_label n = link_source link) ns")
  case None
  then show ?thesis
    by (simp add: attractLink_def springOnY_def findIndex_samePlace [OF assms(3)])
next
  case (Some si)
  note si = Some
  show ?thesis
  proof (cases "findIndex (\<lambda>n. node_label n = link_target link) ns")
    case None
    then show ?thesis
      using si by (simp add: attractLink_def springOnY_def findIndex_samePlace [OF assms(3)])
  next
    case (Some ti)
    have len: "length ms = length ns"
      using assms(3) by (simp add: list_all2_lengthD)
    have sil: "si < length ns" and til: "ti < length ns"
      using si Some by (auto dest: findIndex_less)
    have sp: "samePlace (ns ! k) (ms ! k)" if "k < length ns" for k
      using assms(3) that by (simp add: list_all2_nthD)
    have pos: "node_x (ms ! si) = node_x (ns ! si)" "node_y (ms ! si) = node_y (ns ! si)"
      "node_x (ms ! ti) = node_x (ns ! ti)" "node_y (ms ! ti) = node_y (ns ! ti)"
      using sp [OF sil] sp [OF til] by (simp_all add: samePlace_def)
    have idq: "Some (node_id (ms ! q)) \<noteq> d"
      using sp [OF assms(1)] assms(2) by (simp add: samePlace_def)
    define fx where "fx = (node_x (ns ! ti) - node_x (ns ! si)) /
        springDist (node_x (ns ! ti) - node_x (ns ! si)) (node_y (ns ! ti) - node_y (ns ! si)) *
        ((springDist (node_x (ns ! ti) - node_x (ns ! si)) (node_y (ns ! ti) - node_y (ns ! si))
           - kIdeal) * 0.03)"
    define fy where "fy = (node_y (ns ! ti) - node_y (ns ! si)) /
        springDist (node_x (ns ! ti) - node_x (ns ! si)) (node_y (ns ! ti) - node_y (ns ! si)) *
        ((springDist (node_x (ns ! ti) - node_x (ns ! si)) (node_y (ns ! ti) - node_y (ns ! si))
           - kIdeal) * 0.03)"
    have s: "springOnY ns link q = (if q = si then fy else 0) - (if q = ti then fy else 0)"
      by (simp add: springOnY_def si Some Let_def fy_def)
    define ns1 where "ns1 = (if Some (node_id (ms ! si)) \<noteq> d
                         then ms[si := (ms ! si)\<lparr>node_vx := Some (orZero (node_vx (ms ! si)) + fx),
                                                 node_vy := Some (orZero (node_vy (ms ! si)) + fy)\<rparr>]
                         else ms)"
    have a: "attractLink d link ms =
             (if Some (node_id (ns1 ! ti)) \<noteq> d
                 then ns1[ti := (ns1 ! ti)\<lparr>node_vx := Some (orZero (node_vx (ns1 ! ti)) - fx),
                                           node_vy := Some (orZero (node_vy (ns1 ! ti)) - fy)\<rparr>]
                 else ns1)"
      unfolding attractLink_def findIndex_samePlace [OF assms(3)] si Some option.case Let_def pos
        ns1_def fx_def fy_def by (rule refl)
    have len1: "length ns1 = length ns"
      by (simp add: ns1_def len)
    have id1: "node_id (ns1 ! q) = node_id (ms ! q)"
      using sil len by (simp add: ns1_def nth_list_update)
    have v1: "orZero (node_vy (ns1 ! q)) = orZero (node_vy (ms ! q)) + (if q = si then fy else 0)"
      using sil len idq by (auto simp: ns1_def nth_list_update orZero_def)
    have "orZero (node_vy (attractLink d link ms ! q)) =
          orZero (node_vy (ns1 ! q)) - (if q = ti then fy else 0)"
      unfolding a using til len1 idq id1 by (auto simp: nth_list_update orZero_def)
    then show ?thesis
      using v1 s by simp
  qed
qed

lemma attraction_vy:
  assumes "q < length ns" "Some (node_id (ns ! q)) \<noteq> d" "list_all2 samePlace ns ms"
  shows "orZero (node_vy (attraction d ls ms ! q)) =
         orZero (node_vy (ms ! q)) + (\<Sum>l\<leftarrow>ls. springOnY ns l q)"
  using assms(3) unfolding attraction_def
proof (induction ls arbitrary: ms)
  case Nil
  show ?case by simp
next
  case (Cons l ls)
  have "orZero (node_vy (fold (attractLink d) ls (attractLink d l ms) ! q)) =
        orZero (node_vy (attractLink d l ms ! q)) + (\<Sum>l\<leftarrow>ls. springOnY ns l q)"
    by (rule Cons.IH) (rule attractLink_samePlace [OF Cons.prems])
  then show ?case
    using attractLink_vy [OF assms(1,2) Cons.prems, of l] by simp
qed

lemma forces_vy:
  assumes "q < length ns" "Some (node_id (ns ! q)) \<noteq> d"
  shows "orZero (node_vy (forces w h d ls ns ! q)) =
         orZero (node_vy (ns ! q)) +
         (\<Sum>j\<in>{..<length ns} - {q}. repulseOnY (ns ! q) (ns ! j)) +
         (h / 2 - node_y (ns ! q)) * 0.005 +
         (\<Sum>l\<leftarrow>ls. springOnY ns l q)"
  unfolding forces_def
  using attraction_vy [OF assms repulsion_samePlace, of ls w h] repulsion_vy [OF assms, of w h]
  by simp

subsection \<open>A collision pair step with the dragged node\<close>

lemma collidePair_dragged_first:
  assumes "Some (node_id u) = d" "Some (node_id v) \<noteq> d" "overlapping u v"
  shows "collidePair d u v =
     (if minSepX u v - \<bar>node_x u - node_x v\<bar> < minSepY u v - \<bar>node_y u - node_y v\<bar>
      then (u\<lparr>node_vx := Some (orZero (node_vx u) * 0.1)\<rparr>,
            v\<lparr>node_x := node_x v - (if node_x u - node_x v > 0 then 1 else - 1) *
                                    ((minSepX u v - \<bar>node_x u - node_x v\<bar>) / 2),
              node_vx := Some (orZero (node_vx v) * 0.1)\<rparr>)
      else (u\<lparr>node_vy := Some (orZero (node_vy u) * 0.1)\<rparr>,
            v\<lparr>node_y := node_y v - (if node_y u - node_y v > 0 then 1 else - 1) *
                                    ((minSepY u v - \<bar>node_y u - node_y v\<bar>) / 2),
              node_vy := Some (orZero (node_vy v) * 0.1)\<rparr>))"
  using assms by (simp add: collidePair_cases Let_def)

lemma collidePair_dragged_second:
  assumes "Some (node_id u) \<noteq> d" "Some (node_id v) = d" "overlapping u v"
  shows "collidePair d u v =
     (if minSepX u v - \<bar>node_x u - node_x v\<bar> < minSepY u v - \<bar>node_y u - node_y v\<bar>
      then (u\<lparr>node_x := node_x u + (if node_x u - node_x v > 0 then 1 else - 1) *
                                    ((minSepX u v - \<bar>node_x u - node_x v\<bar>) / 2),
              node_vx := Some (orZero (node_vx u) * 0.1)\<rparr>,
            v\<lparr>node_vx := Some (orZero (node_vx v) * 0.1)\<rparr>)
      else (u\<lparr>node_y := node_y u + (if node_y u - node_y v > 0 then 1 else - 1) *
                                    ((minSepY u v - \<bar>node_y u - node_y v\<bar>) / 2),
              node_vy := Some (orZero (node_vy u) * 0.1)\<rparr>,
            v\<lparr>node_vy := Some (orZero (node_vy v) * 0.1)\<rparr>))"
  using assms by (simp add: collidePair_cases Let_def)

subsection \<open>The example layouts\<close>

lemma sqrt_2500: "sqrt 2500 = 50"
  using real_sqrt_mult_self [of 50] by simp

lemma ex_repulseOn:
  "repulseOnX exB exA = 10" "repulseOnY exB exA = 0"
  by (simp_all add: repulseOnX_def repulseOnY_def repulseDistSq_def kIdeal_def exA_def exB_def
      sqrt_2500)

lemma ex_springOn:
  "springOnX [exA, exB] (exLink ''Photosynthesis'' ''Carbon dioxide'' (Some ''uses'')) (Suc 0) = 6"
  "springOnY [exA, exB] (exLink ''Photosynthesis'' ''Carbon dioxide'' (Some ''uses'')) (Suc 0) = 0"
  by (simp_all add: springOnX_def springOnY_def springDist_def kIdeal_def exA_def exB_def
      exLink_def sqrt_2500)

lemma exPass:
  assumes "node_id a = ''Photosynthesis''" "node_label a = ''Photosynthesis''"
      and "node_x a = 100" "node_y a = 100"
      and "node_id b = ''Carbon dioxide''" "node_label b = ''Carbon dioxide''"
      and "node_x b = 150" "node_y b = Y" "100 \<le> Y" "Y < 174"
  shows "samePlace a (fst (collidePair (Some ''Photosynthesis'') a b))"
    and "node_id (snd (collidePair (Some ''Photosynthesis'') a b)) = ''Carbon dioxide''"
    and "node_label (snd (collidePair (Some ''Photosynthesis'') a b)) = ''Carbon dioxide''"
    and "node_x (snd (collidePair (Some ''Photosynthesis'') a b)) = 150"
    and "node_y (snd (collidePair (Some ''Photosynthesis'') a b)) = (Y + 174) / 2"
  using assms
  by (simp_all add: collidePair_def Let_def getNodeDimensions_def padding_def samePlace_def
      diff_divide_distrib add_divide_distrib)

lemma exCollision_near:
  assumes "samePlace exA a" "samePlace exB b"
  shows "node_id (collision (Some ''Photosynthesis'') [a, b] ! 1) = ''Carbon dioxide''"
    and "node_y (collision (Some ''Photosynthesis'') [a, b] ! 1) = 164.75"
proof -
  have a: "node_id a = ''Photosynthesis''" "node_label a = ''Photosynthesis''"
    "node_x a = 100" "node_y a = 100"
    using assms(1) by (simp_all add: samePlace_def exA_def)
  have b: "node_id b = ''Carbon dioxide''" "node_label b = ''Carbon dioxide''"
    "node_x b = 150" "node_y b = 100"
    using assms(2) by (simp_all add: samePlace_def exB_def)
  define a1 where "a1 = fst (collidePair (Some ''Photosynthesis'') a b)"
  define b1 where "b1 = snd (collidePair (Some ''Photosynthesis'') a b)"
  define a2 where "a2 = fst (collidePair (Some ''Photosynthesis'') a1 b1)"
  define b2 where "b2 = snd (collidePair (Some ''Photosynthesis'') a1 b1)"
  define b3 where "b3 = snd (collidePair (Some ''Photosynthesis'') a2 b2)"
  note p1 = exPass [OF a b, folded a1_def b1_def]
  have a1: "node_id a1 = ''Photosynthesis''" "node_label a1 = ''Photosynthesis''"
    "node_x a1 = 100" "node_y a1 = 100"
    using p1(1) a by (simp_all add: samePlace_def)
  have b1: "node_id b1 = ''Carbon dioxide''" "node_label b1 = ''Carbon dioxide''"
    "node_x b1 = 150" "node_y b1 = 137"
    using p1(2-5) by simp_all
  note p2 = exPass [OF a1 b1, folded a2_def b2_def]
  have a2: "node_id a2 = ''Photosynthesis''" "node_label a2 = ''Photosynthesis''"
    "node_x a2 = 100" "node_y a2 = 100"
    using p2(1) a1 by (simp_all add: samePlace_def)
  have b2: "node_id b2 = ''Carbon dioxide''" "node_label b2 = ''Carbon dioxide''"
    "node_x b2 = 150" "node_y b2 = 155.5"
    using p2(2-5) by simp_all
  note p3 = exPass [OF a2 b2, folded b3_def]
  have c: "collision (Some ''Photosynthesis'') [a, b] ! 1 = b3"
    by (simp add: collision_def collisionPass_two a1_def b1_def a2_def b2_def b3_def)
  show "node_id (collision (Some ''Photosynthesis'') [a, b] ! 1) = ''Carbon dioxide''"
    and "node_y (collision (Some ''Photosynthesis'') [a, b] ! 1) = 164.75"
    unfolding c using p3(2,5) by simp_all
qed

lemma exCollision_far:
  assumes "samePlace exAmoved a" "samePlace exB b"
  shows "collision (Some ''Photosynthesis'') [a, b] = [a, b]"
proof -
  have "\<not> overlapping a b"
    using assms
    by (simp add: overlapping_def minSepY_74 samePlace_def exAmoved_def exA_def exB_def)
  then have "collidePair (Some ''Photosynthesis'') a b = (a, b)"
    by (rule collidePair_idle)
  then show ?thesis
    by (simp add: collision_def collisionPass_two)
qed

lemma exOther_near:
  "156 \<le> node_y (simulate 800 600 (Some ''Photosynthesis'') dragPos [] [exA, exB] ! 1)"
proof -
  obtain a b where f: "forces 800 600 (Some ''Photosynthesis'') [] [exA, exB] = [a, b]"
    and ab: "samePlace exA a" "samePlace exB b"
    by (rule forces_two)
  define m where "m = collision (Some ''Photosynthesis'') [a, b] ! 1"
  have m: "node_y m = 164.75"
    unfolding m_def using ab by (rule exCollision_near(2))
  have "simulate 800 600 (Some ''Photosynthesis'') dragPos [] [exA, exB] ! 1 = integrate 800 600 m"
    unfolding m_def f [symmetric]
    by (rule simulate_other_any_pointer) (simp_all add: exB_def)
  then have "node_y (simulate 800 600 (Some ''Photosynthesis'') dragPos [] [exA, exB] ! 1) =
             max 60 (min 540 (164.75 + settle (node_vy m)))"
    by (simp add: integrate_alt boundaryMargin_def m)
  then show ?thesis
    using settle_bound [of "node_vy m"] by (simp add: abs_le_iff)
qed

lemma exOther_far:
  "node_y (simulate 800 600 (Some ''Photosynthesis'') dragPos [] [exAmoved, exB] ! 1) \<le> 108"
proof -
  obtain a b where f: "forces 800 600 (Some ''Photosynthesis'') [] [exAmoved, exB] = [a, b]"
    and ab: "samePlace exAmoved a" "samePlace exB b"
    by (rule forces_two)
  have c: "collision (Some ''Photosynthesis'') [a, b] ! 1 = b"
    using exCollision_far [OF ab] by simp
  have y: "node_y b = 100"
    using ab(2) by (simp add: samePlace_def exB_def)
  have "simulate 800 600 (Some ''Photosynthesis'') dragPos [] [exAmoved, exB] ! 1 =
        integrate 800 600 (collision (Some ''Photosynthesis'') [a, b] ! 1)"
    unfolding f [symmetric]
    by (rule simulate_other_any_pointer) (simp_all add: exB_def)
  then have "simulate 800 600 (Some ''Photosynthesis'') dragPos [] [exAmoved, exB] ! 1 =
        integrate 800 600 b"
    unfolding c .
  then have "node_y (simulate 800 600 (Some ''Photosynthesis'') dragPos [] [exAmoved, exB] ! 1) =
             max 60 (min 540 (100 + settle (node_vy b)))"
    by (simp add: integrate_alt boundaryMargin_def y)
  then show ?thesis
    using settle_bound [of "node_vy b"] by (simp add: abs_le_iff)
qed

text \<open>
  Claim C7, as amended. In a tick with dragged id \<open>d\<close> and a supplied pointer position \<open>p\<close>,
  the dragged node comes out at \<open>p\<close> with velocity zero and is otherwise unchanged;
  repulsion, centering and the springs leave it untouched, and collision resolution does
  not move it. The forces act on every other node \<open>q\<close>, relative to the position that the
  dragged node has in the state the tick starts from, not relative to \<open>p\<close>. The output of \<open>q\<close>
  is \<open>integrate\<close> of \<open>q\<close> after the collision phase, the same for every pointer position and
  with none. After repulsion, centering and springs \<open>q\<close> is what it would be with no node
  dragged, at its old position, and its velocity, read with \<^verbatim>\<open>(v || 0)\<close>, is the old one
  plus the repulsion from every other node of the start state (the dragged one among
  them), plus the centering term, plus the spring term of every link. In a collision pair
  step in which the dragged node overlaps a node that is not dragged, whichever of the two
  comes first, the dragged node keeps its position and the other node moves away from it by
  half the overlap along the axis of the smaller overlap, both with the velocity on that
  axis damped; a collision pass over a layout of two nodes is one such pair step.
\<close>

theorem dragged_node_pinned:
  assumes "i < length ns" "Some (node_id (ns ! i)) = d"
  shows "simulate w h d (Some p) ls ns ! i =
           (ns ! i)\<lparr>node_x := fst p, node_y := snd p, node_vx := Some 0, node_vy := Some 0\<rparr>
       \<and> forces w h d ls ns ! i = ns ! i
       \<and> node_x (collision d (forces w h d ls ns) ! i) = node_x (ns ! i)
       \<and> node_y (collision d (forces w h d ls ns) ! i) = node_y (ns ! i)
       \<and> (q < length ns \<and> Some (node_id (ns ! q)) \<noteq> d \<longrightarrow>
            simulate w h d (Some p) ls ns ! q =
              integrate w h (collision d (forces w h d ls ns) ! q)
          \<and> simulate w h d (Some p) ls ns ! q = simulate w h d dragPos ls ns ! q
          \<and> forces w h d ls ns ! q = forces w h None ls ns ! q
          \<and> node_x (forces w h d ls ns ! q) = node_x (ns ! q)
          \<and> node_y (forces w h d ls ns ! q) = node_y (ns ! q)
          \<and> orZero (node_vx (forces w h d ls ns ! q)) =
              orZero (node_vx (ns ! q)) +
              (\<Sum>j\<in>{..<length ns} - {q}. repulseOnX (ns ! q) (ns ! j)) +
              (w / 2 - node_x (ns ! q)) * 0.005 +
              (\<Sum>l\<leftarrow>ls. springOnX ns l q)
          \<and> orZero (node_vy (forces w h d ls ns ! q)) =
              orZero (node_vy (ns ! q)) +
              (\<Sum>j\<in>{..<length ns} - {q}. repulseOnY (ns ! q) (ns ! j)) +
              (h / 2 - node_y (ns ! q)) * 0.005 +
              (\<Sum>l\<leftarrow>ls. springOnY ns l q))
       \<and> (Some (node_id u) = d \<and> Some (node_id v) \<noteq> d \<and> overlapping u v \<longrightarrow>
            collidePair d u v =
              (if minSepX u v - \<bar>node_x u - node_x v\<bar> < minSepY u v - \<bar>node_y u - node_y v\<bar>
               then (u\<lparr>node_vx := Some (orZero (node_vx u) * 0.1)\<rparr>,
                     v\<lparr>node_x := node_x v - (if node_x u - node_x v > 0 then 1 else - 1) *
                                             ((minSepX u v - \<bar>node_x u - node_x v\<bar>) / 2),
                       node_vx := Some (orZero (node_vx v) * 0.1)\<rparr>)
               else (u\<lparr>node_vy := Some (orZero (node_vy u) * 0.1)\<rparr>,
                     v\<lparr>node_y := node_y v - (if node_y u - node_y v > 0 then 1 else - 1) *
                                             ((minSepY u v - \<bar>node_y u - node_y v\<bar>) / 2),
                       node_vy := Some (orZero (node_vy v) * 0.1)\<rparr>)))
       \<and> (Some (node_id a) \<noteq> d \<and> Some (node_id b) = d \<and> overlapping a b \<longrightarrow>
            collidePair d a b =
              (if minSepX a b - \<bar>node_x a - node_x b\<bar> < minSepY a b - \<bar>node_y a - node_y b\<bar>
               then (a\<lparr>node_x := node_x a + (if node_x a - node_x b > 0 then 1 else - 1) *
                                             ((minSepX a b - \<bar>node_x a - node_x b\<bar>) / 2),
                       node_vx := Some (orZero (node_vx a) * 0.1)\<rparr>,
                     b\<lparr>node_vx := Some (orZero (node_vx b) * 0.1)\<rparr>)
               else (a\<lparr>node_y := node_y a + (if node_y a - node_y b > 0 then 1 else - 1) *
                                             ((minSepY a b - \<bar>node_y a - node_y b\<bar>) / 2),
                       node_vy := Some (orZero (node_vy a) * 0.1)\<rparr>,
                     b\<lparr>node_vy := Some (orZero (node_vy b) * 0.1)\<rparr>)))
       \<and> collisionPass d [u, v] = [fst (collidePair d u v), snd (collidePair d u v)]"
proof -
  define m where "m = collision d (forces w h d ls ns) ! i"
  have mid: "node_id m = node_id (ns ! i)" "node_label m = node_label (ns ! i)"
    unfolding m_def using assms(1) by (simp_all add: phases_id phases_label)
  have "simulate w h d (Some p) ls ns ! i =
          m\<lparr>node_x := fst p, node_y := snd p, node_vx := Some 0, node_vy := Some 0\<rparr>"
    unfolding m_def using assms mid(1) [unfolded m_def] by (simp add: simulate_nth finishNode_pinned)
  also have "\<dots> = (ns ! i)\<lparr>node_x := fst p, node_y := snd p, node_vx := Some 0, node_vy := Some 0\<rparr>"
    using mid by (intro ConceptNode.equality) simp_all
  finally have 1: "simulate w h d (Some p) ls ns ! i =
           (ns ! i)\<lparr>node_x := fst p, node_y := snd p, node_vx := Some 0, node_vy := Some 0\<rparr>" .
  have 2: "forces w h d ls ns ! i = ns ! i"
    using assms by (rule forces_dragged_unchanged)
  have 3: "node_x (collision d (forces w h d ls ns) ! i) = node_x (ns ! i) \<and>
           node_y (collision d (forces w h d ls ns) ! i) = node_y (ns ! i)"
    using assms by (rule phases_dragged_position)
  have 4: "simulate w h d (Some p) ls ns ! q =
              integrate w h (collision d (forces w h d ls ns) ! q)
          \<and> simulate w h d (Some p) ls ns ! q = simulate w h d dragPos ls ns ! q
          \<and> forces w h d ls ns ! q = forces w h None ls ns ! q
          \<and> node_x (forces w h d ls ns ! q) = node_x (ns ! q)
          \<and> node_y (forces w h d ls ns ! q) = node_y (ns ! q)
          \<and> orZero (node_vx (forces w h d ls ns ! q)) =
              orZero (node_vx (ns ! q)) +
              (\<Sum>j\<in>{..<length ns} - {q}. repulseOnX (ns ! q) (ns ! j)) +
              (w / 2 - node_x (ns ! q)) * 0.005 +
              (\<Sum>l\<leftarrow>ls. springOnX ns l q)
          \<and> orZero (node_vy (forces w h d ls ns ! q)) =
              orZero (node_vy (ns ! q)) +
              (\<Sum>j\<in>{..<length ns} - {q}. repulseOnY (ns ! q) (ns ! j)) +
              (h / 2 - node_y (ns ! q)) * 0.005 +
              (\<Sum>l\<leftarrow>ls. springOnY ns l q)"
    if q: "q < length ns" "Some (node_id (ns ! q)) \<noteq> d"
  proof -
    have a: "simulate w h d dp ls ns ! q = integrate w h (collision d (forces w h d ls ns) ! q)"
      for dp
      using q by (rule simulate_other_any_pointer)
    have b: "forces w h d ls ns ! q = forces w h None ls ns ! q"
      using forces_others_same q by blast
    show ?thesis
      using a [of "Some p"] a [of dragPos] b forces_position [OF q(1), of w h d ls]
        forces_vx [OF q, of w h ls] forces_vy [OF q, of w h ls]
      by simp
  qed
  have 5: "collisionPass d [u, v] = [fst (collidePair d u v), snd (collidePair d u v)]"
    by (rule collisionPass_two)
  show ?thesis
    using 1 2 3 4 5 collidePair_dragged_first [of u d v] collidePair_dragged_second [of a d b]
    by blast
qed

theorem dragged_node_pinned_witness:
  "simulate 800 600 (Some ''Photosynthesis'') (Some (10, 20)) exAB [exA, exB] ! 0 =
     exA\<lparr>node_x := 10, node_y := 20, node_vx := Some 0, node_vy := Some 0\<rparr>
   \<and> forces 800 600 (Some ''Photosynthesis'') exAB [exA, exB] ! 0 = exA
   \<and> node_x (collision (Some ''Photosynthesis'')
               (forces 800 600 (Some ''Photosynthesis'') exAB [exA, exB]) ! 0) = 100
   \<and> simulate 800 600 (Some ''Photosynthesis'') (Some (10, 20)) exAB [exA, exB] ! 1 =
     simulate 800 600 (Some ''Photosynthesis'') (Some (700, 500)) exAB [exA, exB] ! 1
   \<and> orZero (node_vx (forces 800 600 (Some ''Photosynthesis'') exAB [exA, exB] ! 1)) = 17.25
   \<and> orZero (node_vy (forces 800 600 (Some ''Photosynthesis'') exAB [exA, exB] ! 1)) = 1
   \<and> overlapping exA exB
   \<and> collidePair (Some ''Photosynthesis'') exA exB = (exA, exB\<lparr>node_y := 137\<rparr>)
   \<and> collidePair (Some ''Photosynthesis'') exB exA = (exB\<lparr>node_y := 63\<rparr>, exA)
   \<and> collisionPass (Some ''Photosynthesis'') [exA, exB] = [exA, exB\<lparr>node_y := 137\<rparr>]"
proof -
  have l0: "0 < length [exA, exB]"
    by simp
  have h0: "Some (node_id ([exA, exB] ! 0)) = Some ''Photosynthesis''"
    by (simp add: exA_def)
  note t = dragged_node_pinned [OF l0 h0, of 800 600 "(10, 20)" exAB 1 "Some (700, 500)"
      exA exB exB exA]
  have h1: "1 < length [exA, exB] \<and> Some (node_id ([exA, exB] ! 1)) \<noteq> Some ''Photosynthesis''"
    by (simp add: exB_def)
  have o: "overlapping exA exB" "overlapping exB exA"
    by (simp_all add: overlapping_def minSepX_def minSepY_def getNodeDimensions_def padding_def
        exA_def exB_def)
  have h2: "Some (node_id exA) = Some ''Photosynthesis'' \<and>
            Some (node_id exB) \<noteq> Some ''Photosynthesis'' \<and> overlapping exA exB"
    using o by (simp add: exA_def exB_def)
  have h3: "Some (node_id exB) \<noteq> Some ''Photosynthesis'' \<and>
            Some (node_id exA) = Some ''Photosynthesis'' \<and> overlapping exB exA"
    using o by (simp add: exA_def exB_def)
  have s: "{..<length [exA, exB]} - {1} = {0::nat}"
    by auto
  have c1: "simulate 800 600 (Some ''Photosynthesis'') (Some (10, 20)) exAB [exA, exB] ! 0 =
     exA\<lparr>node_x := 10, node_y := 20, node_vx := Some 0, node_vy := Some 0\<rparr>"
    using t by simp
  have c2: "forces 800 600 (Some ''Photosynthesis'') exAB [exA, exB] ! 0 = exA"
    using t by simp
  have c3: "node_x (collision (Some ''Photosynthesis'')
               (forces 800 600 (Some ''Photosynthesis'') exAB [exA, exB]) ! 0) = 100"
    using t by (simp add: exA_def)
  from t h1 have q: "simulate 800 600 (Some ''Photosynthesis'') (Some (10, 20)) exAB [exA, exB] ! 1 =
     simulate 800 600 (Some ''Photosynthesis'') (Some (700, 500)) exAB [exA, exB] ! 1"
    and vx: "orZero (node_vx (forces 800 600 (Some ''Photosynthesis'') exAB [exA, exB] ! 1)) =
              orZero (node_vx ([exA, exB] ! 1)) +
              (\<Sum>j\<in>{..<length [exA, exB]} - {1}. repulseOnX ([exA, exB] ! 1) ([exA, exB] ! j)) +
              (800 / 2 - node_x ([exA, exB] ! 1)) * 0.005 +
              (\<Sum>l\<leftarrow>exAB. springOnX [exA, exB] l 1)"
    and vy: "orZero (node_vy (forces 800 600 (Some ''Photosynthesis'') exAB [exA, exB] ! 1)) =
              orZero (node_vy ([exA, exB] ! 1)) +
              (\<Sum>j\<in>{..<length [exA, exB]} - {1}. repulseOnY ([exA, exB] ! 1) ([exA, exB] ! j)) +
              (600 / 2 - node_y ([exA, exB] ! 1)) * 0.005 +
              (\<Sum>l\<leftarrow>exAB. springOnY [exA, exB] l 1)"
    by blast+
  have c5: "orZero (node_vx (forces 800 600 (Some ''Photosynthesis'') exAB [exA, exB] ! 1)) = 17.25"
    unfolding vx s by (simp add: ex_repulseOn ex_springOn exAB_def) (simp add: exB_def orZero_def)
  have c6: "orZero (node_vy (forces 800 600 (Some ''Photosynthesis'') exAB [exA, exB] ! 1)) = 1"
    unfolding vy s by (simp add: ex_repulseOn ex_springOn exAB_def) (simp add: exB_def orZero_def)
  from t h2 have "collidePair (Some ''Photosynthesis'') exA exB =
              (if minSepX exA exB - \<bar>node_x exA - node_x exB\<bar> < minSepY exA exB - \<bar>node_y exA - node_y exB\<bar>
               then (exA\<lparr>node_vx := Some (orZero (node_vx exA) * 0.1)\<rparr>,
                     exB\<lparr>node_x := node_x exB - (if node_x exA - node_x exB > 0 then 1 else - 1) *
                                             ((minSepX exA exB - \<bar>node_x exA - node_x exB\<bar>) / 2),
                       node_vx := Some (orZero (node_vx exB) * 0.1)\<rparr>)
               else (exA\<lparr>node_vy := Some (orZero (node_vy exA) * 0.1)\<rparr>,
                     exB\<lparr>node_y := node_y exB - (if node_y exA - node_y exB > 0 then 1 else - 1) *
                                             ((minSepY exA exB - \<bar>node_y exA - node_y exB\<bar>) / 2),
                       node_vy := Some (orZero (node_vy exB) * 0.1)\<rparr>))"
    by blast
  then have c7: "collidePair (Some ''Photosynthesis'') exA exB = (exA, exB\<lparr>node_y := 137\<rparr>)"
    by (simp add: minSepX_def minSepY_def getNodeDimensions_def padding_def orZero_def
        exA_def exB_def)
  from t h3 have "collidePair (Some ''Photosynthesis'') exB exA =
              (if minSepX exB exA - \<bar>node_x exB - node_x exA\<bar> < minSepY exB exA - \<bar>node_y exB - node_y exA\<bar>
               then (exB\<lparr>node_x := node_x exB + (if node_x exB - node_x exA > 0 then 1 else - 1) *
                                             ((minSepX exB exA - \<bar>node_x exB - node_x exA\<bar>) / 2),
                       node_vx := Some (orZero (node_vx exB) * 0.1)\<rparr>,
                     exA\<lparr>node_vx := Some (orZero (node_vx exA) * 0.1)\<rparr>)
               else (exB\<lparr>node_y := node_y exB + (if node_y exB - node_y exA > 0 then 1 else - 1) *
                                             ((minSepY exB exA - \<bar>node_y exB - node_y exA\<bar>) / 2),
                       node_vy := Some (orZero (node_vy exB) * 0.1)\<rparr>,
                     exA\<lparr>node_vy := Some (orZero (node_vy exA) * 0.1)\<rparr>))"
    by blast
  then have c8: "collidePair (Some ''Photosynthesis'') exB exA = (exB\<lparr>node_y := 63\<rparr>, exA)"
    by (simp add: minSepX_def minSepY_def getNodeDimensions_def padding_def orZero_def
        exA_def exB_def)
  from t have "collisionPass (Some ''Photosynthesis'') [exA, exB] =
               [fst (collidePair (Some ''Photosynthesis'') exA exB),
                snd (collidePair (Some ''Photosynthesis'') exA exB)]"
    by blast
  then have c9: "collisionPass (Some ''Photosynthesis'') [exA, exB] = [exA, exB\<lparr>node_y := 137\<rparr>]"
    by (simp add: c7)
  show ?thesis
    using c1 c2 c3 q c5 c6 o(1) c7 c8 c9 by blast
qed

text \<open>
  The claim as stated has the forces act relative to the pinned position, the pointer
  position \<open>p\<close>. With the dragged node at (100, 100) in the start state and the pointer at
  (100, 190), the node at (150, 100) comes out as if the pointer had not moved, at a height
  of 156 or more: collision resolution pushes it away from (100, 100). Relative to the pinned
  position, that is from the start state with the dragged node at (100, 190), nothing
  overlaps and it stays at a height of 108 or less.
\<close>

theorem dragged_node_pinned_counterexample:
  "simulate 800 600 (Some ''Photosynthesis'') (Some (100, 190)) [] [exA, exB] ! 1 =
   simulate 800 600 (Some ''Photosynthesis'') (Some (100, 100)) [] [exA, exB] ! 1
   \<and> 156 \<le> node_y (simulate 800 600 (Some ''Photosynthesis'') (Some (100, 190)) [] [exA, exB] ! 1)
   \<and> node_y (simulate 800 600 (Some ''Photosynthesis'') (Some (100, 190)) [] [exAmoved, exB] ! 1)
       \<le> 108"
proof -
  have q: "1 < length [exA, exB]" "Some (node_id ([exA, exB] ! 1)) \<noteq> Some ''Photosynthesis''"
    by (simp_all add: exB_def)
  have "simulate 800 600 (Some ''Photosynthesis'') (Some (100, 190)) [] [exA, exB] ! 1 =
        simulate 800 600 (Some ''Photosynthesis'') (Some (100, 100)) [] [exA, exB] ! 1"
    unfolding simulate_other_any_pointer [OF q] ..
  then show ?thesis
    using exOther_near [of "Some (100, 190)"] exOther_far [of "Some (100, 190)"] by simp
qed

end
